theory Spec2Isabelle
  imports Main
begin

section \<open>Python strings\<close>

text \<open>
  A Python \<open>str\<close> is modelled as a \<^typ>\<open>string\<close>: a list of characters with code points
  below 256. In that range the white space of \<open>str.strip()\<close>, \<open>str.split()\<close> and \<open>int()\<close>
  is the twelve characters of \<open>py_isspace\<close>, and the only decimal digits are \<open>0\<close> to \<open>9\<close>.
\<close>

definition startswith :: "string \<Rightarrow> string \<Rightarrow> bool" where
  \<comment> \<open>\<open>s.startswith(p)\<close>, written \<open>startswith p s\<close>\<close>
  "startswith p s = (take (length p) s = p)"

definition py_isspace :: "char \<Rightarrow> bool" where
  "py_isspace c = (c \<in> set [CHR 0x09, CHR 0x0A, CHR 0x0B, CHR 0x0C, CHR 0x0D,
     CHR 0x1C, CHR 0x1D, CHR 0x1E, CHR 0x1F, CHR 0x20, CHR 0x85, CHR 0xA0])"

definition py_strip :: "string \<Rightarrow> string" where
  \<comment> \<open>\<open>s.strip()\<close>\<close>
  "py_strip s = rev (dropWhile py_isspace (rev (dropWhile py_isspace s)))"

fun py_split_ws :: "string \<Rightarrow> string list" where
  \<comment> \<open>\<open>s.split()\<close>: the maximal runs of characters that are not white space\<close>
  "py_split_ws [] = []"
| "py_split_ws (c # cs) =
     (if py_isspace c then py_split_ws cs
      else (case py_split_ws cs of
              [] \<Rightarrow> [[c]]
            | w # ws \<Rightarrow> (if cs \<noteq> [] \<and> py_isspace (hd cs) then [c] # w # ws
                        else (c # w) # ws)))"

function py_split :: "string \<Rightarrow> string \<Rightarrow> string list" where
  \<comment> \<open>\<open>s.split(sep)\<close>, written \<open>py_split sep s\<close>, for a separator that is not empty (every
      separator of the source is a literal): the occurrences of \<open>sep\<close> are found from the
      left and do not overlap\<close>
  "py_split sep [] = [[]]"
| "py_split sep (c # cs) =
     (if sep \<noteq> [] \<and> startswith sep (c # cs)
      then [] # py_split sep (drop (length sep) (c # cs))
      else (case py_split sep cs of
              [] \<Rightarrow> [[c]]
            | w # ws \<Rightarrow> (c # w) # ws))"
  by pat_completeness auto
termination
  by (relation "measure (\<lambda>(sep, s). length s)") auto

definition py_replace_plus :: "string \<Rightarrow> string" where
  \<comment> \<open>\<open>s.replace("+", "")\<close>\<close>
  "py_replace_plus s = filter (\<lambda>c. c \<noteq> CHR ''+'') s"

definition digit_of :: "char \<Rightarrow> int option" where
  \<comment> \<open>the value of a decimal digit\<close>
  "digit_of = map_of (zip ''0123456789'' [0, 1, 2, 3, 4, 5, 6, 7, 8, 9])"

fun int_digits :: "int \<Rightarrow> bool \<Rightarrow> string \<Rightarrow> int option" where
  \<comment> \<open>the digits of an integer literal in base 10, with single underscores between digits;
      the flag says that the character before was a digit\<close>
  "int_digits acc prev [] = (if prev then Some acc else None)"
| "int_digits acc prev (c # cs) =
     (case digit_of c of
        Some d \<Rightarrow> int_digits (acc * 10 + d) True cs
      | None \<Rightarrow> (if c = CHR ''_'' \<and> prev then int_digits acc False cs else None))"

definition int_isspace :: "char \<Rightarrow> bool" where
  \<comment> \<open>the white space that \<open>int()\<close> skips around a literal: that of \<open>py_isspace\<close> without the
      four separator controls \<open>0x1C\<close> to \<open>0x1F\<close>\<close>
  "int_isspace c = (c \<in> set [CHR 0x09, CHR 0x0A, CHR 0x0B, CHR 0x0C, CHR 0x0D,
     CHR 0x20, CHR 0x85, CHR 0xA0])"

definition py_int :: "nat \<Rightarrow> string \<Rightarrow> int option" where
  \<comment> \<open>\<open>int(s)\<close>; \<open>None\<close> is ValueError. \<open>lim\<close> is the interpreter's limit on the digits of a
      converted string (\<open>sys.get_int_max_str_digits()\<close>: 4300 unless configured, 0 for no
      limit), which applies to strings of more than 640 digits.\<close>
  "py_int lim s =
     (let t = rev (dropWhile int_isspace (rev (dropWhile int_isspace s)));
          neg = (t \<noteq> [] \<and> hd t = CHR ''-'');
          body = (if t \<noteq> [] \<and> (hd t = CHR ''-'' \<or> hd t = CHR ''+'') then tl t else t);
          n = length (filter (\<lambda>c. c \<noteq> CHR ''_'') body)
      in if 640 < n \<and> 0 < lim \<and> lim < n then None
         else map_option (\<lambda>v. if neg then - v else v) (int_digits 0 False body))"

section \<open>The diff parser (src/server.py, parse\_diff\_to\_files)\<close>

datatype py_error = ValueError | IndexError | KeyError

text \<open>The hunk dictionary; \<open>context_lines\<close> is its key \<open>context\<close>.\<close>

record hunk =
  start_line :: int
  header :: string
  additions :: "string list"
  deletions :: "string list"
  context_lines :: "string list"

text \<open>
  The dictionary \<open>files\<close> keeps its keys in insertion order; assigning to a key that is
  present replaces the value and keeps the key's position.
\<close>

fun dict_set :: "('k \<times> 'v) list \<Rightarrow> 'k \<Rightarrow> 'v \<Rightarrow> ('k \<times> 'v) list" where
  "dict_set [] k v = [(k, v)]"
| "dict_set ((k', v') # kvs) k v =
     (if k' = k then (k, v) # kvs else (k', v') # dict_set kvs k v)"

text \<open>
  The hunk dictionaries are objects that the scan reaches along two paths, the list of
  their file and the variable \<open>current_hunk\<close>; they live in \<open>heap\<close>, in the order of their
  creation, and both paths hold their index there.
\<close>

record scan_state =
  heap :: "hunk list"
  files :: "(string \<times> nat list) list"
  current_file :: "string option"
  current_hunk :: "nat option"

definition init_state :: scan_state where
  "init_state = \<lparr>heap = [], files = [], current_file = None, current_hunk = None\<rparr>"

definition truthy :: "string option \<Rightarrow> bool" where
  \<comment> \<open>the truth value of \<open>current_file\<close>: neither \<open>None\<close> nor the empty string\<close>
  "truthy f = (case f of None \<Rightarrow> False | Some p \<Rightarrow> p \<noteq> [])"

definition hunk_new_start :: "nat \<Rightarrow> string \<Rightarrow> py_error + int" where
  \<comment> \<open>the statements of the \<open>try\<close> block up to \<open>new_start\<close>\<close>
  "hunk_new_start lim line =
     (case py_split ''@@'' line of
        _ # info # _ \<Rightarrow>
          (let hunk_info = py_strip info;
               parts = py_split_ws hunk_info;
               new_range = (case parts of _ # r # _ \<Rightarrow> r | _ \<Rightarrow> ''+0'')
           in case py_split '','' new_range of
                [] \<Rightarrow> Inl IndexError
              | t # _ \<Rightarrow> (case py_int lim (py_replace_plus t) of
                            None \<Rightarrow> Inl ValueError
                          | Some n \<Rightarrow> Inr n))
      | _ \<Rightarrow> Inl IndexError)"

definition heap_upd :: "nat \<Rightarrow> (hunk \<Rightarrow> hunk) \<Rightarrow> scan_state \<Rightarrow> scan_state" where
  "heap_upd i f st = st\<lparr>heap := (heap st)[i := f (heap st ! i)]\<rparr>"

definition step :: "nat \<Rightarrow> scan_state \<Rightarrow> string \<Rightarrow> py_error + scan_state" where
  \<comment> \<open>the body of the \<open>for\<close> loop; \<open>Inl\<close> is an exception that leaves the function\<close>
  "step lim st line =
     (if startswith ''diff --git'' line then
        (let parts = py_split '' b/'' line
         in if 2 \<le> length parts
            then Inr (st\<lparr>current_file := Some (last parts),
                          files := dict_set (files st) (last parts) []\<rparr>)
            else Inr st)
      else if startswith ''@@'' line \<and> truthy (current_file st) then
        (case hunk_new_start lim line of
           Inl e \<Rightarrow> (if e = ValueError \<or> e = IndexError then Inr st else Inl e)
         | Inr new_start \<Rightarrow>
             (case map_of (files st) (the (current_file st)) of
                None \<Rightarrow> Inl KeyError
              | Some ids \<Rightarrow>
                  Inr (st\<lparr>heap := heap st @ [\<lparr>start_line = new_start, header = line,
                                               additions = [], deletions = [], context_lines = []\<rparr>],
                          current_hunk := Some (length (heap st)),
                          files := dict_set (files st) (the (current_file st))
                                     (ids @ [length (heap st)])\<rparr>)))
      else (case current_hunk st of
              None \<Rightarrow> Inr st
            | Some h \<Rightarrow>
                if startswith ''+'' line \<and> \<not> startswith ''+++'' line then
                  Inr (heap_upd h (\<lambda>x. x\<lparr>additions := additions x @ [drop 1 line]\<rparr>) st)
                else if startswith ''-'' line \<and> \<not> startswith ''---'' line then
                  Inr (heap_upd h (\<lambda>x. x\<lparr>deletions := deletions x @ [drop 1 line]\<rparr>) st)
                else if \<not> startswith [CHR 0x5C] line then
                  Inr (heap_upd h (\<lambda>x. x\<lparr>context_lines := context_lines x @ [line]\<rparr>) st)
                else Inr st))"

fun scan :: "nat \<Rightarrow> scan_state \<Rightarrow> string list \<Rightarrow> py_error + scan_state" where
  "scan lim st [] = Inr st"
| "scan lim st (line # rest) =
     (case step lim st line of Inl e \<Rightarrow> Inl e | Inr st' \<Rightarrow> scan lim st' rest)"

type_synonym file_diff = "(string \<times> hunk list) list"

definition result_of :: "scan_state \<Rightarrow> file_diff" where
  \<comment> \<open>the dictionary returned: every list of \<open>files\<close> with its hunk objects as they are at the end\<close>
  "result_of st = map (\<lambda>(p, ids). (p, map (\<lambda>i. heap st ! i) ids)) (files st)"

definition parse_lines :: "nat \<Rightarrow> string list \<Rightarrow> py_error + file_diff" where
  "parse_lines lim ls = map_sum id result_of (scan lim init_state ls)"

definition parse_diff_to_files :: "nat \<Rightarrow> string \<Rightarrow> py_error + file_diff" where
  "parse_diff_to_files lim diff_output = parse_lines lim (py_split [CHR 0x0A] diff_output)"

text \<open>
  What the scan keeps true of its state: the current file is a key of \<open>files\<close>, every
  index held in \<open>files\<close> or in \<open>current_hunk\<close> is that of an object of the heap, and no
  key of \<open>files\<close> is listed twice.
\<close>

definition wf_state :: "scan_state \<Rightarrow> bool" where
  "wf_state st =
     ((\<forall>f. current_file st = Some f \<longrightarrow> f \<in> fst ` set (files st)) \<and>
      (\<forall>(p, ids) \<in> set (files st). \<forall>i \<in> set ids. i < length (heap st)) \<and>
      (\<forall>h. current_hunk st = Some h \<longrightarrow> h < length (heap st)) \<and>
      distinct (map fst (files st)))"

text \<open>\<open>occurs sep s\<close>: the text \<open>sep\<close> occurs in \<open>s\<close>.\<close>

fun occurs :: "string \<Rightarrow> string \<Rightarrow> bool" where
  "occurs sep [] = (sep = [])"
| "occurs sep (c # cs) = (startswith sep (c # cs) \<or> occurs sep cs)"

section \<open>What the specification says of the parser's result\<close>

text \<open>
  A file marker registers a path when it holds the separator; the lines of the input fall
  into the lines before the first such marker and one section for each marker, in order.
\<close>

definition registers :: "string \<Rightarrow> bool" where
  "registers l = (startswith ''diff --git'' l \<and> 2 \<le> length (py_split '' b/'' l))"

definition marker_path :: "string \<Rightarrow> string" where
  "marker_path l = last (py_split '' b/'' l)"

fun split_sections :: "string list \<Rightarrow> string list \<times> (string \<times> string list) list" where
  "split_sections [] = ([], [])"
| "split_sections (l # ls) =
     (if registers l then ([], (marker_path l, fst (split_sections ls)) # snd (split_sections ls))
      else (l # fst (split_sections ls), snd (split_sections ls)))"

text \<open>
  A hunk marker that parses gives a hunk, known by its start line and its header; the
  markers of a section whose path is the empty string give none.
\<close>

definition hunk_of_line :: "nat \<Rightarrow> string \<Rightarrow> (int \<times> string) option" where
  "hunk_of_line lim l =
     (if startswith ''@@'' l
      then (case hunk_new_start lim l of Inr n \<Rightarrow> Some (n, l) | Inl e \<Rightarrow> None)
      else None)"

definition section_hunks :: "nat \<Rightarrow> string \<Rightarrow> string list \<Rightarrow> (int \<times> string) list" where
  "section_hunks lim p sec = (if p = [] then [] else List.map_filter (hunk_of_line lim) sec)"

definition section_table :: "nat \<Rightarrow> string list \<Rightarrow> (string \<times> (int \<times> string) list) list" where
  "section_table lim ls =
     map (\<lambda>(p, sec). (p, section_hunks lim p sec)) (snd (split_sections ls))"

definition first_seen :: "'a list \<Rightarrow> 'a list" where
  \<comment> \<open>the elements of a list in the order of their first appearance\<close>
  "first_seen xs = rev (remdups (rev xs))"

definition last_value :: "('k \<times> 'v list) list \<Rightarrow> 'k \<Rightarrow> 'v list" where
  \<comment> \<open>the value of the last entry of a key\<close>
  "last_value kvs k = (case map_of (rev kvs) k of None \<Rightarrow> [] | Some v \<Rightarrow> v)"

definition outline :: "file_diff \<Rightarrow> (string \<times> (int \<times> string) list) list" where
  \<comment> \<open>the files of a result and the hunks of each, without their bodies\<close>
  "outline fd = map (\<lambda>(p, hs). (p, map (\<lambda>h. (start_line h, header h)) hs)) fd"

definition dict_append :: "('k \<times> 'v list) list \<Rightarrow> 'k \<Rightarrow> 'v list \<Rightarrow> ('k \<times> 'v list) list" where
  "dict_append d k xs = map (\<lambda>(p, v). if p = k then (p, v @ xs) else (p, v)) d"

text \<open>The same outline of a state of the scan, and the hunks still to come for its file.\<close>

definition st_outline :: "scan_state \<Rightarrow> (string \<times> (int \<times> string) list) list" where
  "st_outline st = outline (result_of st)"

definition reg ::
  "nat \<Rightarrow> (string \<times> (int \<times> string) list) list \<Rightarrow> string \<times> string list
     \<Rightarrow> (string \<times> (int \<times> string) list) list" where
  "reg lim d ps = dict_set d (fst ps) (section_hunks lim (fst ps) (snd ps))"

definition pending ::
  "nat \<Rightarrow> scan_state \<Rightarrow> string list \<Rightarrow> (string \<times> (int \<times> string) list) list" where
  "pending lim st pre =
     (case current_file st of
        None \<Rightarrow> st_outline st
      | Some f \<Rightarrow> if f = [] then st_outline st
                 else dict_append (st_outline st) f (List.map_filter (hunk_of_line lim) pre))"

definition dict_of :: "('k \<times> 'v) list \<Rightarrow> ('k \<times> 'v) list" where
  \<comment> \<open>the dictionary that assigning the entries in order builds\<close>
  "dict_of kvs = foldl (\<lambda>d (k, v). dict_set d k v) [] kvs"

definition expected_outline :: "nat \<Rightarrow> string list \<Rightarrow> (string \<times> (int \<times> string) list) list" where
  \<comment> \<open>the paths of the sections in the order of their first appearance, each with the hunks
      of its last section\<close>
  "expected_outline lim ls =
     map (\<lambda>p. (p, last_value (section_table lim ls) p))
       (first_seen (map fst (section_table lim ls)))"

section \<open>Classes of body lines, and the hunk rebuilt from its three lists\<close>








section \<open>The process runner and the repository locator (src/server.py)\<close>

text \<open>
  What \<open>subprocess.run\<close> does with a command: the process completes, with its output, its
  error output and its return code, or the call raises, for the timeout or for another
  reason (with its message). The commands themselves are outside the program: \<open>env\<close> maps
  the argument list and the working directory to the outcome.
\<close>

datatype proc_outcome = Completed string string int | Timeout_Expired | Raised string

definition run_git_command ::
  "(string list \<Rightarrow> string option \<Rightarrow> proc_outcome) \<Rightarrow> string list \<Rightarrow> string option
     \<Rightarrow> string \<times> string \<times> int" where
  "run_git_command env args cwd =
     (case env (''git'' # args) cwd of
        Completed out err code \<Rightarrow> (out, err, code)
      | Timeout_Expired \<Rightarrow> ('''', ''Command timed out'', 1)
      | Raised msg \<Rightarrow> ('''', msg, 1))"

definition get_repo_root ::
  "(string list \<Rightarrow> string option \<Rightarrow> proc_outcome) \<Rightarrow> string option \<Rightarrow> string option" where
  "get_repo_root env cwd =
     (case run_git_command env [''rev-parse'', ''--show-toplevel''] cwd of
        (stdout, err, code) \<Rightarrow> if code = 0 then Some (py_strip stdout) else None)"

definition get_current_branch ::
  "(string list \<Rightarrow> string option \<Rightarrow> proc_outcome) \<Rightarrow> string option \<Rightarrow> string option" where
  "get_current_branch env cwd =
     (case run_git_command env [''branch'', ''--show-current''] cwd of
        (stdout, err, code) \<Rightarrow> if code = 0 then Some (py_strip stdout) else None)"

section \<open>The comment exporter (src/utils/export\_comments.py)\<close>

text \<open>
  The values that \<open>response.json()\<close> returns. A \<open>JObj\<close> is a dictionary: its keys are
  distinct. Numbers are the integers.
\<close>

datatype json =
  JNull | JBool bool | JNum int | JStr string | JArr "json list" | JObj "(string \<times> json) list"

datatype export_error =
  HTTP_Error nat | Retry_Error | Connection_Error | Invalid_URL | JSON_Decode_Error
  | Attribute_Error | Type_Error | Key_Error

definition bind_sum :: "'e + 'a \<Rightarrow> ('a \<Rightarrow> 'e + 'b) \<Rightarrow> 'e + 'b" where
  "bind_sum m f = (case m of Inl e \<Rightarrow> Inl e | Inr x \<Rightarrow> f x)"

fun py_truthy :: "json \<Rightarrow> bool" where
  "py_truthy JNull = False"
| "py_truthy (JBool b) = b"
| "py_truthy (JNum n) = (n \<noteq> 0)"
| "py_truthy (JStr s) = (s \<noteq> [])"
| "py_truthy (JArr xs) = (xs \<noteq> [])"
| "py_truthy (JObj kvs) = (kvs \<noteq> [])"

fun py_get :: "json \<Rightarrow> string \<Rightarrow> json \<Rightarrow> export_error + json" where
  \<comment> \<open>\<open>x.get(key, default)\<close>: only a dictionary has the method\<close>
  "py_get (JObj kvs) k d = Inr (case map_of kvs k of None \<Rightarrow> d | Some v \<Rightarrow> v)"
| "py_get x k d = Inl Attribute_Error"

fun py_item :: "json \<Rightarrow> string \<Rightarrow> export_error + json" where
  \<comment> \<open>\<open>x[key]\<close> for a string key\<close>
  "py_item (JObj kvs) k = (case map_of kvs k of None \<Rightarrow> Inl Key_Error | Some v \<Rightarrow> Inr v)"
| "py_item x k = Inl Type_Error"

fun py_slice_ok :: "json \<Rightarrow> export_error + unit" where
  \<comment> \<open>\<open>x[:50]\<close>, of which only the exception matters: strings and lists have slices (for a
      dictionary the exception is a TypeError up to Python 3.11 and a KeyError from 3.12)\<close>
  "py_slice_ok (JStr s) = Inr ()"
| "py_slice_ok (JArr xs) = Inr ()"
| "py_slice_ok x = Inl Type_Error"

fun py_iter :: "json \<Rightarrow> export_error + json list" where
  \<comment> \<open>what \<open>results.extend(x)\<close> appends: the elements of a list, the keys of a dictionary,
      the characters of a string\<close>
  "py_iter (JArr xs) = Inr xs"
| "py_iter (JObj kvs) = Inr (map (\<lambda>kv. JStr (fst kv)) kvs)"
| "py_iter (JStr s) = Inr (map (\<lambda>c. JStr [c]) s)"
| "py_iter x = Inl Type_Error"

record retry =
  total_retry :: nat
  backoff_factor :: nat
  status_forcelist :: "nat list"
  allowed_methods :: "string list"

record session =
  auth :: "string \<times> string"
  max_retries :: retry

definition create_session :: "string \<Rightarrow> string \<Rightarrow> session" where
  "create_session email token =
     \<lparr>auth = (email, token),
      max_retries = \<lparr>total_retry = 3, backoff_factor = 1,
                      status_forcelist = [429, 500, 502, 503, 504],
                      allowed_methods = [''GET'']\<rparr>\<rparr>"

text \<open>
  What lies outside the program, behind the HTTP library: a state of the world \<open>'w\<close>, with
  \<^item> \<open>accepts\<close>, the further checks of the library on a URL that has an http or https scheme
    (its host, its port); a URL that fails them raises before any request;
  \<^item> \<open>send\<close>, the remote side, which maps the state of the world and the URL of a request
    to an answer, a response with its status and its body (\<open>None\<close> when the body is not
    JSON; no response carries a \<open>Retry-After\<close> header) or a failure of the connection, and
    to the next state of the world;
  \<^item> \<open>sleep\<close>, the clock: \<open>time.sleep\<close>, with the delay in milliseconds.
\<close>

datatype raw_answer = Response nat "json option" | Transport_Failure

record 'w http =
  accepts :: "string \<Rightarrow> bool"
  send :: "'w \<Rightarrow> string \<Rightarrow> raw_answer \<times> 'w"
  sleep :: "nat \<Rightarrow> 'w \<Rightarrow> 'w"

definition ascii_lower :: "char \<Rightarrow> char" where
  "ascii_lower c =
     (case map_of (zip ''ABCDEFGHIJKLMNOPQRSTUVWXYZ'' ''abcdefghijklmnopqrstuvwxyz'') c of
        None \<Rightarrow> c
      | Some d \<Rightarrow> d)"

definition has_http_scheme :: "string \<Rightarrow> bool" where
  \<comment> \<open>the library strips the white space before a URL, and sends a request only for a URL
      that begins, whatever the case of its letters, with the prefix of a mounted adapter\<close>
  "has_http_scheme url =
     (startswith ''http://'' (map ascii_lower (dropWhile py_isspace url)) \<or>
      startswith ''https://'' (map ascii_lower (dropWhile py_isspace url)))"

text \<open>
  Modelled from the spec: the retrying GET of the session. The loop is that of the HTTP
  library, which \<open>create_session\<close> configures and mounts, and is not in src/. A request
  whose answer is a transient failure is sent again while the budget of retries lasts; when
  the budget is spent the error surfaces. The statuses that count as transient, the methods
  that are retried, the budget and the backoff factor are those of the retry strategy of the
  session. Before the retry that follows \<open>j\<close> failures in a row the library sleeps
  \<open>backoff_factor * 2 ^ (j - 1)\<close> seconds, at most 120, and does not sleep after the first
  failure.
\<close>

definition backoff_time :: "retry \<Rightarrow> nat \<Rightarrow> nat" where
  \<comment> \<open>in milliseconds\<close>
  "backoff_time r j =
     (if j \<le> 1 then 0 else min 120000 (1000 * backoff_factor r * 2 ^ (j - 1)))"

definition sleep_backoff :: "retry \<Rightarrow> nat \<Rightarrow> 'w http \<Rightarrow> 'w \<Rightarrow> 'w" where
  "sleep_backoff r j net w =
     (if backoff_time r j = 0 then w else sleep net (backoff_time r j) w)"

fun send_with_retries ::
  "retry \<Rightarrow> nat \<Rightarrow> 'w http \<Rightarrow> 'w \<Rightarrow> string \<Rightarrow> (export_error + nat \<times> json option) \<times> 'w" where
  \<comment> \<open>the second argument is the number of retries left: \<open>total_retry r\<close> less it, and one, is
      the number of failures in a row when an answer fails\<close>
  "send_with_retries r 0 net w url =
     (case send net w url of
        (Response s b, w') \<Rightarrow>
          if ''GET'' \<in> set (allowed_methods r) \<and> s \<in> set (status_forcelist r)
          then (Inl Retry_Error, w') else (Inr (s, b), w')
      | (Transport_Failure, w') \<Rightarrow> (Inl Connection_Error, w'))"
| "send_with_retries r (Suc k) net w url =
     (case send net w url of
        (Response s b, w') \<Rightarrow>
          if ''GET'' \<in> set (allowed_methods r) \<and> s \<in> set (status_forcelist r)
          then send_with_retries r k net (sleep_backoff r (total_retry r - k) net w') url
          else (Inr (s, b), w')
      | (Transport_Failure, w') \<Rightarrow>
          send_with_retries r k net (sleep_backoff r (total_retry r - k) net w') url)"

definition session_get ::
  "session \<Rightarrow> 'w http \<Rightarrow> 'w \<Rightarrow> string \<Rightarrow> (export_error + nat \<times> json option) \<times> 'w" where
  \<comment> \<open>\<open>session.get(url, timeout=30)\<close>; \<open>Invalid_URL\<close> is the exception of the library for a URL
      that it does not send (MissingSchema, InvalidSchema, InvalidURL)\<close>
  "session_get s net w url =
     (if has_http_scheme url \<and> accepts net url
      then send_with_retries (max_retries s) (total_retry (max_retries s)) net w url
      else (Inl Invalid_URL, w))"

text \<open>
  The \<open>while url\<close> loop of \<open>fetch_paginated\<close> runs as long as the remote side names a next
  page: \<open>fuel\<close> bounds the number of pages requested, and \<open>None\<close> is the loop still running
  when the fuel is spent.
\<close>

fun fetch_pages ::
  "nat \<Rightarrow> ('w \<Rightarrow> string \<Rightarrow> (export_error + nat \<times> json option) \<times> 'w) \<Rightarrow> 'w \<Rightarrow> json
     \<Rightarrow> json list \<Rightarrow> ((export_error + json list) \<times> 'w) option" where
  "fetch_pages 0 get w url results =
     (if py_truthy url then None else Some (Inr results, w))"
| "fetch_pages (Suc n) get w url results =
     (if \<not> py_truthy url then Some (Inr results, w)
      else (case url of
              JStr u \<Rightarrow>
                (case get w u of
                   (Inl e, w') \<Rightarrow> Some (Inl e, w')
                 | (Inr (status, body), w') \<Rightarrow>
                     if 400 \<le> status \<and> status < 600 then Some (Inl (HTTP_Error status), w')
                     else (case body of
                             None \<Rightarrow> Some (Inl JSON_Decode_Error, w')
                           | Some data \<Rightarrow>
                               (case bind_sum (py_get data ''values'' (JArr [])) py_iter of
                                  Inl e \<Rightarrow> Some (Inl e, w')
                                | Inr items \<Rightarrow>
                                    (case py_get data ''next'' JNull of
                                       Inl e \<Rightarrow> Some (Inl e, w')
                                     | Inr nxt \<Rightarrow>
                                         fetch_pages n get w' nxt (results @ items)))))
            | _ \<Rightarrow> Some (Inl Invalid_URL, w)))"

definition fetch_paginated ::
  "'w http \<Rightarrow> nat \<Rightarrow> session \<Rightarrow> 'w \<Rightarrow> string
     \<Rightarrow> ((export_error + json list) \<times> 'w) option" where
  "fetch_paginated net fuel s w url = fetch_pages fuel (session_get s net) w (JStr url) []"

definition get_all_prs ::
  "'w http \<Rightarrow> nat \<Rightarrow> session \<Rightarrow> string \<Rightarrow> string \<Rightarrow> 'w
     \<Rightarrow> ((export_error + json list) \<times> 'w) option" where
  "get_all_prs net fuel s workspace repo_slug w =
     fetch_paginated net fuel s w
       (''https://api.bitbucket.org/2.0/repositories/'' @ workspace @ ''/'' @ repo_slug
          @ ''/pullrequests?state=MERGED&state=OPEN&state=DECLINED'')"

text \<open>\<open>fmt\<close> is the text of a value in an f-string (\<open>str\<close> of the value).\<close>

definition get_pr_comments ::
  "'w http \<Rightarrow> nat \<Rightarrow> session \<Rightarrow> string \<Rightarrow> string
     \<Rightarrow> (json \<Rightarrow> string) \<Rightarrow> json \<Rightarrow> 'w \<Rightarrow> ((export_error + json list) \<times> 'w) option" where
  "get_pr_comments net fuel s workspace repo_slug fmt pr_id w =
     fetch_paginated net fuel s w
       (''https://api.bitbucket.org/2.0/repositories/'' @ workspace @ ''/'' @ repo_slug
          @ ''/pullrequests/'' @ fmt pr_id @ ''/comments'')"

record comment_row =
  pr_id :: json
  pr_title :: json
  pr_url :: string
  comment_id :: json
  content :: json
  file_path :: json
  line_to :: json
  created_on :: json
  updated_on :: json

definition keeps :: "string option \<Rightarrow> json \<Rightarrow> export_error + bool" where
  \<comment> \<open>the filter of the inner loop: \<open>False\<close> is \<open>continue\<close>\<close>
  "keeps account_id comment =
     (case account_id of
        None \<Rightarrow> Inr True
      | Some a \<Rightarrow>
          if a = [] then Inr True
          else bind_sum (py_get comment ''user'' (JObj [])) (\<lambda>user.
               bind_sum (py_get user ''account_id'' (JStr [])) (\<lambda>author_id.
               Inr (author_id = JStr a))))"

definition make_row :: "json \<Rightarrow> json \<Rightarrow> string \<Rightarrow> json \<Rightarrow> export_error + comment_row" where
  "make_row pid ptitle purl comment =
     bind_sum (py_get comment ''id'' JNull) (\<lambda>cid.
     bind_sum (bind_sum (py_get comment ''content'' (JObj []))
                 (\<lambda>c. py_get c ''raw'' (JStr []))) (\<lambda>raw.
     bind_sum (bind_sum (py_get comment ''inline'' (JObj []))
                 (\<lambda>i. py_get i ''path'' (JStr ''General comment''))) (\<lambda>path.
     bind_sum (bind_sum (py_get comment ''inline'' (JObj []))
                 (\<lambda>i. py_get i ''to'' (JStr []))) (\<lambda>to.
     bind_sum (py_get comment ''created_on'' (JStr [])) (\<lambda>created.
     bind_sum (py_get comment ''updated_on'' (JStr [])) (\<lambda>updated.
     Inr \<lparr>pr_id = pid, pr_title = ptitle, pr_url = purl, comment_id = cid, content = raw,
          file_path = path, line_to = to, created_on = created, updated_on = updated\<rparr>))))))"

fun scan_comments ::
  "string option \<Rightarrow> json \<Rightarrow> json \<Rightarrow> string \<Rightarrow> json list \<Rightarrow> comment_row list
     \<Rightarrow> export_error + comment_row list" where
  "scan_comments account_id pid ptitle purl [] all_comments = Inr all_comments"
| "scan_comments account_id pid ptitle purl (comment # rest) all_comments =
     (case keeps account_id comment of
        Inl e \<Rightarrow> Inl e
      | Inr False \<Rightarrow> scan_comments account_id pid ptitle purl rest all_comments
      | Inr True \<Rightarrow>
          (case make_row pid ptitle purl comment of
             Inl e \<Rightarrow> Inl e
           | Inr row \<Rightarrow>
               scan_comments account_id pid ptitle purl rest (all_comments @ [row])))"

definition pr_web_url :: "string \<Rightarrow> string \<Rightarrow> string" where
  "pr_web_url workspace repo_slug =
     ''https://bitbucket.org/'' @ workspace @ ''/'' @ repo_slug @ ''/pull-requests''"

definition pr_url_text :: "string \<Rightarrow> string \<Rightarrow> (json \<Rightarrow> string) \<Rightarrow> json \<Rightarrow> string" where
  \<comment> \<open>the value of the key \<open>pr_url\<close>: the web URL, a slash and the id\<close>
  "pr_url_text workspace repo_slug fmt pid = pr_web_url workspace repo_slug @ ''/'' @ fmt pid"

text \<open>
  At the end of each turn of the loop over the pull requests the program sleeps for a tenth
  of a second.
\<close>

fun scan_prs ::
  "'w http \<Rightarrow> nat \<Rightarrow> session \<Rightarrow> string \<Rightarrow> string
     \<Rightarrow> string option \<Rightarrow> (json \<Rightarrow> string) \<Rightarrow> 'w \<Rightarrow> json list \<Rightarrow> comment_row list
     \<Rightarrow> ((export_error + comment_row list) \<times> 'w) option" where
  "scan_prs net fuel s workspace repo_slug account_id fmt w [] all_comments =
     Some (Inr all_comments, w)"
| "scan_prs net fuel s workspace repo_slug account_id fmt w (pr # rest) all_comments =
     (case bind_sum (py_item pr ''id'') (\<lambda>pid.
           bind_sum (py_item pr ''title'') (\<lambda>ptitle.
           bind_sum (py_slice_ok ptitle) (\<lambda>u. Inr (pid, ptitle)))) of
        Inl e \<Rightarrow> Some (Inl e, w)
      | Inr (pid, ptitle) \<Rightarrow>
          (case get_pr_comments net fuel s workspace repo_slug fmt pid w of
             None \<Rightarrow> None
           | Some (Inl e, w') \<Rightarrow> Some (Inl e, w')
           | Some (Inr comments, w') \<Rightarrow>
               (case scan_comments account_id pid ptitle
                       (pr_url_text workspace repo_slug fmt pid) comments all_comments of
                  Inl e \<Rightarrow> Some (Inl e, w')
                | Inr all_comments' \<Rightarrow>
                    scan_prs net fuel s workspace repo_slug account_id fmt
                      (sleep net 100 w') rest all_comments')))"

definition export_comments_to_csv ::
  "'w http \<Rightarrow> nat \<Rightarrow> session \<Rightarrow> string \<Rightarrow> string
     \<Rightarrow> string option \<Rightarrow> (json \<Rightarrow> string) \<Rightarrow> 'w
     \<Rightarrow> ((export_error + comment_row list) \<times> 'w) option" where
  \<comment> \<open>the rows written to the CSV file, in their order; the number returned is their count\<close>
  "export_comments_to_csv net fuel s workspace repo_slug account_id fmt w =
     (case get_all_prs net fuel s workspace repo_slug w of
        None \<Rightarrow> None
      | Some (Inl e, w') \<Rightarrow> Some (Inl e, w')
      | Some (Inr prs, w') \<Rightarrow>
          scan_prs net fuel s workspace repo_slug account_id fmt w' prs [])"

section \<open>A remote listing that fails transiently\<close>

text \<open>
  A remote side that answers from a script: each request takes the next entry, which holds
  the URL expected and the answer; a request for another URL, or one after the end of the
  script, fails. The state of the world is what is left of the script.
\<close>

definition scripted ::
  "(string \<times> raw_answer) list \<Rightarrow> string \<Rightarrow> raw_answer \<times> (string \<times> raw_answer) list" where
  "scripted w url =
     (case w of
        [] \<Rightarrow> (Transport_Failure, [])
      | (u, a) # rest \<Rightarrow> (if u = url then a else Transport_Failure, rest))"

text \<open>
  The script of a listing: a page is its URL, the statuses of the failures that come before
  its success and its items; the success of a page names the URL of the next page, the last
  page names none.
\<close>

fun listing_script :: "(string \<times> nat list \<times> json list) list \<Rightarrow> (string \<times> raw_answer) list" where
  "listing_script [] = []"
| "listing_script ((u, fs, vs) # rest) =
     map (\<lambda>s. (u, Response s None)) fs
     @ (u, Response 200 (Some (JObj ((''values'', JArr vs)
          # (case rest of [] \<Rightarrow> [] | (u', x) # y \<Rightarrow> [(''next'', JStr u')])))))
     # listing_script rest"

fun start_url :: "(string \<times> nat list \<times> json list) list \<Rightarrow> json" where
  "start_url [] = JNull"
| "start_url ((u, fs, vs) # rest) = JStr u"

definition page_items :: "(string \<times> nat list \<times> json list) list \<Rightarrow> json list" where
  \<comment> \<open>the items of all pages, in page order\<close>
  "page_items pages = concat (map (\<lambda>p. snd (snd p)) pages)"

definition transient :: "string \<times> nat list \<times> json list \<Rightarrow> bool" where
  \<comment> \<open>a page with an http or https URL whose failures are of the statuses that the session
      retries\<close>
  "transient p =
     (has_http_scheme (fst p) \<and> set (fst (snd p)) \<subseteq> {429, 500, 502, 503, 504})"

text \<open>
  The world of a script: what is left of the script, and the delays slept so far. \<open>ok\<close> holds
  of the URLs that pass the further checks of the library.
\<close>

definition scripted_net ::
  "(string \<Rightarrow> bool) \<Rightarrow> ((string \<times> raw_answer) list \<times> nat list) http" where
  "scripted_net ok =
     \<lparr>accepts = ok,
      send = (\<lambda>w url. (fst (scripted (fst w) url), (snd (scripted (fst w) url), snd w))),
      sleep = (\<lambda>d w. (fst w, snd w @ [d]))\<rparr>"

text \<open>
  The backoff that the specification asks for, in milliseconds: the retry after the first
  failure of a request is immediate, and the delay before the retry that follows \<open>j\<close>
  failures in a row is \<open>2 ^ (j - 1)\<close> seconds, twice the delay before. \<open>slept k\<close> are the
  delays of a request that fails \<open>k\<close> times in a row and is sent again each time.
\<close>

definition backoff_ms :: "nat \<Rightarrow> nat" where
  "backoff_ms j = (if j \<le> 1 then 0 else 1000 * 2 ^ (j - 1))"

definition slept :: "nat \<Rightarrow> nat list" where
  "slept k = filter (\<lambda>d. 0 < d) (map backoff_ms [1..<Suc k])"

definition page_sleeps :: "(string \<times> nat list \<times> json list) list \<Rightarrow> nat list" where
  "page_sleeps pages = concat (map (\<lambda>p. slept (length (fst (snd p)))) pages)"

fun naps :: "(nat \<Rightarrow> nat) \<Rightarrow> nat \<Rightarrow> nat \<Rightarrow> nat list" where
  \<comment> \<open>the delays slept before the retries that follow the failures \<open>n + 1\<close> to \<open>n + m\<close> in a
      row, for the delays \<open>bt\<close>: a delay of zero is no sleep\<close>
  "naps bt n 0 = []"
| "naps bt n (Suc m) = filter (\<lambda>d. 0 < d) [bt (Suc n)] @ naps bt (Suc n) m"

section \<open>What the specification says of the collected comments\<close>

fun field_or :: "json \<Rightarrow> string \<Rightarrow> json \<Rightarrow> json" where
  \<comment> \<open>the value of a field of a record, or the default when the field is absent\<close>
  "field_or (JObj kvs) k d = (case map_of kvs k of None \<Rightarrow> d | Some v \<Rightarrow> v)"
| "field_or x k d = d"

fun is_obj :: "json \<Rightarrow> bool" where
  "is_obj (JObj kvs) = True"
| "is_obj x = False"

definition author_of :: "json \<Rightarrow> json" where
  \<comment> \<open>the author identity of a comment\<close>
  "author_of c = field_or (field_or c ''user'' (JObj [])) ''account_id'' (JStr [])"

definition comment_record ::
  "(json \<Rightarrow> string) \<Rightarrow> string \<Rightarrow> string \<Rightarrow> json \<Rightarrow> json \<Rightarrow> comment_row" where
  \<comment> \<open>the record of one comment of one pull request\<close>
  "comment_record fmt workspace repo_slug pr c =
     \<lparr>pr_id = field_or pr ''id'' JNull,
      pr_title = field_or pr ''title'' JNull,
      pr_url = pr_url_text workspace repo_slug fmt (field_or pr ''id'' JNull),
      comment_id = field_or c ''id'' JNull,
      content = field_or (field_or c ''content'' (JObj [])) ''raw'' (JStr []),
      file_path = field_or (field_or c ''inline'' (JObj [])) ''path'' (JStr ''General comment''),
      line_to = field_or (field_or c ''inline'' (JObj [])) ''to'' (JStr []),
      created_on = field_or c ''created_on'' (JStr []),
      updated_on = field_or c ''updated_on'' (JStr [])\<rparr>"

definition pr_shaped :: "json \<Rightarrow> bool" where
  \<comment> \<open>a pull request of the listing: a record with an id and a title that is a text\<close>
  "pr_shaped pr =
     (case pr of
        JObj kvs \<Rightarrow>
          (case (map_of kvs ''id'', map_of kvs ''title'') of
             (Some i, Some (JStr t)) \<Rightarrow> True
           | other \<Rightarrow> False)
      | other \<Rightarrow> False)"

definition comment_shaped :: "json \<Rightarrow> bool" where
  \<comment> \<open>a comment of a listing: a record whose user, content and inline fields, when it has
      them, are records\<close>
  "comment_shaped c =
     (is_obj c \<and> is_obj (field_or c ''user'' (JObj [])) \<and>
      is_obj (field_or c ''content'' (JObj [])) \<and> is_obj (field_or c ''inline'' (JObj [])))"

text \<open>
  \<open>fetched pause get w prs css w'\<close>: from the state \<open>w\<close> of the world, fetching the
  comments of the pull requests one after the other, with the pause after each, gives the
  listings \<open>css\<close> and leaves the world in \<open>w'\<close>.
\<close>

fun fetched ::
  "('w \<Rightarrow> 'w) \<Rightarrow> ('w \<Rightarrow> json \<Rightarrow> ((export_error + json list) \<times> 'w) option) \<Rightarrow> 'w
     \<Rightarrow> json list \<Rightarrow> json list list \<Rightarrow> 'w \<Rightarrow> bool" where
  "fetched pause get w [] css w' = (css = [] \<and> w' = w)"
| "fetched pause get w (pr # prs) css w' =
     (case css of
        [] \<Rightarrow> False
      | cs # rest \<Rightarrow>
          (case get w (field_or pr ''id'' JNull) of
             Some (Inr cs', w1) \<Rightarrow> cs' = cs \<and> fetched pause get (pause w1) prs rest w'
           | other \<Rightarrow> False))"

definition matching_records ::
  "(json \<Rightarrow> string) \<Rightarrow> string \<Rightarrow> string \<Rightarrow> string \<Rightarrow> json list \<Rightarrow> json list list
     \<Rightarrow> comment_row list" where
  \<comment> \<open>the records of the comments whose author is the filter's, by pull request in the order
      of the listing, then by comment in the order of the pull request's listing\<close>
  "matching_records fmt workspace repo_slug account_id prs css =
     concat (map (\<lambda>(pr, cs). map (comment_record fmt workspace repo_slug pr)
                                 (filter (\<lambda>c. author_of c = JStr account_id) cs))
               (zip prs css))"

text \<open>
  An example: two pull requests, 7 and 8, with three and two comments; two of the five
  comments are by \<open>alice\<close>.
\<close>

definition ex_fmt :: "json \<Rightarrow> string" where
  "ex_fmt j = (if j = JNum 7 then ''7'' else if j = JNum 8 then ''8'' else ''None'')"

definition ex_comment :: "int \<Rightarrow> string \<Rightarrow> json" where
  "ex_comment i who =
     JObj [(''id'', JNum i), (''user'', JObj [(''account_id'', JStr who)]),
           (''content'', JObj [(''raw'', JStr ''text'')])]"

definition ex_prs :: "json list" where
  "ex_prs = [JObj [(''id'', JNum 7), (''title'', JStr ''Parser'')],
             JObj [(''id'', JNum 8), (''title'', JStr ''Exporter'')]]"

definition ex_comments :: "json list list" where
  "ex_comments = [[ex_comment 1 ''bob'', ex_comment 2 ''alice'', ex_comment 3 ''carol''],
                  [ex_comment 4 ''alice'', ex_comment 5 ''bob'']]"

definition ex_world :: "(string \<times> raw_answer) list" where
  "ex_world =
     listing_script
       [(''https://api.bitbucket.org/2.0/repositories/ws/repo/pullrequests?state=MERGED&state=OPEN&state=DECLINED'',
         [], ex_prs)]
     @ listing_script
         [(''https://api.bitbucket.org/2.0/repositories/ws/repo/pullrequests/7/comments'',
           [], ex_comments ! 0)]
     @ listing_script
         [(''https://api.bitbucket.org/2.0/repositories/ws/repo/pullrequests/8/comments'',
           [503], ex_comments ! 1)]"

section \<open>Evaluation\<close>

lemmas parser_defs =
  parse_diff_to_files_def parse_lines_def startswith_def step_def init_state_def
  hunk_new_start_def py_strip_def py_isspace_def int_isspace_def py_int_def
  py_replace_plus_def digit_of_def truthy_def heap_upd_def result_of_def

section \<open>The scan never raises\<close>

lemma dict_set_keys: "fst ` set (dict_set d k v) = insert k (fst ` set d)"
  by (induction d k v rule: dict_set.induct) auto

lemma dict_set_vals: "(p, x) \<in> set (dict_set d k v) \<Longrightarrow> (p, x) \<in> set d \<or> (p = k \<and> x = v)"
  by (induction d k v rule: dict_set.induct) (auto split: if_splits)

lemma map_of_keys: "k \<in> fst ` set d \<Longrightarrow> \<exists>v. map_of d k = Some v"
  by (induction d) auto

lemma dict_set_distinct: "distinct (map fst d) \<Longrightarrow> distinct (map fst (dict_set d k v))"
  by (induction d k v rule: dict_set.induct) (auto simp: dict_set_keys)

lemma wf_init: "wf_state init_state"
  by (simp add: wf_state_def init_state_def)

lemma hunk_new_start_errors: "hunk_new_start lim line \<noteq> Inl KeyError"
  by (simp add: hunk_new_start_def Let_def split: list.splits option.splits)

lemma step_total:
  assumes "wf_state st"
  shows "\<exists>st'. step lim st line = Inr st' \<and> wf_state st'"
proof -
  consider (marker) "startswith ''diff --git'' line"
    | (hunk) "\<not> startswith ''diff --git'' line"
        "startswith ''@@'' line \<and> truthy (current_file st)"
    | (body) "\<not> startswith ''diff --git'' line"
        "\<not> (startswith ''@@'' line \<and> truthy (current_file st))"
    by blast
  then show ?thesis
  proof cases
    case marker
    then show ?thesis using assms
      by (auto simp: step_def Let_def wf_state_def dict_set_keys dict_set_distinct
          dest!: dict_set_vals)
  next
    case hunk
    then obtain f where f: "current_file st = Some f"
      by (auto simp: truthy_def split: option.splits)
    with assms obtain ids where ids: "map_of (files st) f = Some ids"
      using map_of_keys by (fastforce simp: wf_state_def)
    have "(f, ids) \<in> set (files st)" using ids by (rule map_of_SomeD)
    with hunk f ids assms show ?thesis
      apply (cases "hunk_new_start lim line")
      subgoal for e
        using hunk_new_start_errors[of lim line] by (cases e) (auto simp: step_def)
      subgoal for n
        by (auto simp: step_def wf_state_def dict_set_keys dict_set_distinct less_Suc_eq
            dest!: dict_set_vals)
      done
  next
    case body
    then show ?thesis using assms
      by (auto simp: step_def wf_state_def heap_upd_def split: option.splits)
  qed
qed

lemma scan_total: "wf_state st \<Longrightarrow> \<exists>st'. scan lim st ls = Inr st' \<and> wf_state st'"
proof (induction ls arbitrary: st)
  case Nil
  then show ?case by simp
next
  case (Cons l ls)
  from step_total[OF Cons.prems, of lim l]
  obtain st1 where "step lim st l = Inr st1" "wf_state st1" by blast
  with Cons.IH[of st1] show ?case by simp
qed

text \<open>
  C9. \<open>parse_diff_to_files\<close> returns a dictionary for every input text, well-formed diff or
  not: the ValueError and IndexError of a hunk header are caught, and the KeyError that
  \<open>files[current_file]\<close> could raise never arises, since the current file is always a key.
\<close>

theorem parse_diff_to_files_total: "\<exists>fd. parse_diff_to_files lim diff_output = Inr fd"
  using scan_total[OF wf_init, of lim "py_split [CHR 0x0A] diff_output"]
  by (auto simp: parse_diff_to_files_def parse_lines_def)

section \<open>The example of the specification\<close>

text \<open>
  C3, as stated: the example diff parses to one file \<open>x.py\<close> with one hunk whose context is
  exactly \<open>["line1"]\<close>. It does not: a context line is kept with its leading blank, and the
  empty string after the last newline is a context line too.
\<close>

theorem example_context_counterexample:
  "map_sum id (map (map_prod id (map context_lines)))
     (parse_diff_to_files 4300
        ''diff --git a/x.py b/x.py\<newline>@@ -1,2 +1,3 @@\<newline> line1\<newline>+line2\<newline>-oldline\<newline>'')
   \<noteq> Inr [(''x.py'', [[''line1'']])]"
  by (simp add: parser_defs)

text \<open>
  C3, amended: the example diff parses to exactly one key \<open>x.py\<close> with exactly one hunk, whose
  start line is 1, whose header is the marker line, whose additions are \<open>["line2"]\<close>, whose
  deletions are \<open>["oldline"]\<close> and whose context is \<open>[" line1", ""]\<close>.
\<close>

theorem example_parse:
  "parse_diff_to_files lim
     ''diff --git a/x.py b/x.py\<newline>@@ -1,2 +1,3 @@\<newline> line1\<newline>+line2\<newline>-oldline\<newline>''
   = Inr [(''x.py'', [\<lparr>start_line = 1, header = ''@@ -1,2 +1,3 @@'',
                          additions = [''line2''], deletions = [''oldline''],
                          context_lines = ['' line1'', '''']\<rparr>])]"
  by (simp add: parser_defs)

section \<open>File boundaries\<close>

text \<open>
  C1. At a \<open>diff --git\<close> line the scan does not clear \<open>current_hunk\<close>: the header lines of
  the second file (\<open>index\<close>, \<open>---\<close>, \<open>+++\<close>) are appended to the context of the hunk of the
  first file.
\<close>

theorem file_boundary_keeps_current_hunk:
  "parse_diff_to_files lim
     ''diff --git a/x b/x\<newline>@@ -1 +1 @@\<newline>+a\<newline>diff --git a/y b/y\<newline>index 1..2\<newline>--- a/y\<newline>+++ b/y\<newline>@@ -1 +1 @@\<newline>+b''
   = Inr [(''x'', [\<lparr>start_line = 1, header = ''@@ -1 +1 @@'', additions = [''a''],
                       deletions = [],
                       context_lines = [''index 1..2'', ''--- a/y'', ''+++ b/y'']\<rparr>]),
          (''y'', [\<lparr>start_line = 1, header = ''@@ -1 +1 @@'', additions = [''b''],
                       deletions = [], context_lines = []\<rparr>])]"
  by (simp add: parser_defs)

section \<open>The path of a file marker\<close>

lemma occurs_iff: "occurs sep s \<longleftrightarrow> (\<exists>a b. s = a @ sep @ b)"
proof (induction s)
  case Nil
  then show ?case by auto
next
  case (Cons c cs)
  show ?case
  proof
    assume "occurs sep (c # cs)"
    then consider "startswith sep (c # cs)" | "occurs sep cs" by auto
    then show "\<exists>a b. c # cs = a @ sep @ b"
    proof cases
      case 1
      then have "c # cs = [] @ sep @ drop (length sep) (c # cs)"
        by (metis append_Nil append_take_drop_id startswith_def)
      then show ?thesis by blast
    next
      case 2
      with Cons.IH obtain a b where "cs = a @ sep @ b" by blast
      then have "c # cs = (c # a) @ sep @ b" by simp
      then show ?thesis by blast
    qed
  next
    assume "\<exists>a b. c # cs = a @ sep @ b"
    then obtain a b where ab: "c # cs = a @ sep @ b" by blast
    show "occurs sep (c # cs)"
    proof (cases a)
      case Nil
      with ab have "startswith sep (c # cs)" by (simp add: startswith_def)
      then show ?thesis by simp
    next
      case (Cons x a')
      with ab have "cs = a' @ sep @ b" by simp
      with Cons.IH show ?thesis by auto
    qed
  qed
qed

lemma py_split_nonempty: "py_split sep s \<noteq> []"
  by (induction sep s rule: py_split.induct) (auto split: list.splits)

lemma py_split_absent: "\<not> occurs sep s \<Longrightarrow> py_split sep s = [s]"
  by (induction sep s rule: py_split.induct) (auto split: list.splits)

lemma py_split_present: "sep \<noteq> [] \<Longrightarrow> occurs sep s \<Longrightarrow> 2 \<le> length (py_split sep s)"
proof (induction sep s rule: py_split.induct)
  case (1 sep) then show ?case by simp
next
  case (2 sep c cs)
  show ?case
  proof (cases "startswith sep (c # cs)")
    case True
    then show ?thesis using 2(3) py_split_nonempty[of sep "drop (length sep) (c # cs)"]
      by (cases "py_split sep (drop (length sep) (c # cs))") auto
  next
    case False
    with 2 have "2 \<le> length (py_split sep cs)" by auto
    with False show ?thesis by (auto split: list.splits)
  qed
qed

lemma split_b_last:
  "\<not> occurs '' b/'' p \<Longrightarrow> last (py_split '' b/'' (pre @ '' b/'' @ p)) = p"
proof (induction "length pre" arbitrary: pre rule: less_induct)
  case less
  show ?case
  proof (cases pre)
    case Nil
    then show ?thesis using less.prems py_split_absent[of "'' b/''" p]
      by (simp add: startswith_def)
  next
    case (Cons c pre')
    show ?thesis
    proof (cases "startswith '' b/'' (pre @ '' b/'' @ p)")
      case True
      have "\<exists>r. pre = '' b/'' @ r"
      proof (cases pre')
        case Nil
        with True Cons show ?thesis by (simp add: startswith_def)
      next
        case outer: (Cons d q)
        show ?thesis
        proof (cases q)
          case Nil
          with True Cons outer show ?thesis by (simp add: startswith_def)
        next
          case (Cons e r)
          with True \<open>pre = c # pre'\<close> outer show ?thesis by (simp add: startswith_def)
        qed
      qed
      then obtain r where r: "pre = '' b/'' @ r" by blast
      then have "length r < length pre" by simp
      from less.hyps[OF this less.prems] show ?thesis
        using r py_split_nonempty[of "'' b/''" "r @ '' b/'' @ p"] by (simp add: startswith_def)
    next
      case False
      have "length pre' < length pre" using Cons by simp
      have "occurs '' b/'' (pre' @ '' b/'' @ p)"
        unfolding occurs_iff by blast
      then have "2 \<le> length (py_split '' b/'' (pre' @ '' b/'' @ p))"
        by (intro py_split_present) simp_all
      with less.hyps[OF \<open>length pre' < length pre\<close> less.prems] show ?thesis
        using False Cons
        by (cases "py_split '' b/'' (pre' @ '' b/'' @ p)") (auto split: list.splits)
    qed
  qed
qed

text \<open>
  C10. On a line that begins with \<open>diff --git\<close>, the path registered is what follows the last
  occurrence of the separator \<open>" b/"\<close>: the current file becomes that path and \<open>files\<close> maps
  it to an empty list, whatever else the line holds, so a path that itself contains the
  separator is cut to its last segment. A line without the separator changes nothing: the
  current file and the current hunk stay as they were.
\<close>

theorem file_marker_path:
  assumes "startswith ''diff --git'' line"
  shows "(\<not> occurs '' b/'' line \<longrightarrow> step lim st line = Inr st) \<and>
         (\<forall>pre p. line = pre @ '' b/'' @ p \<and> \<not> occurs '' b/'' p \<longrightarrow>
            step lim st line =
              Inr (st\<lparr>current_file := Some p, files := dict_set (files st) p []\<rparr>))"
proof (intro conjI allI impI)
  assume "\<not> occurs '' b/'' line"
  then have "py_split '' b/'' line = [line]" by (rule py_split_absent)
  with assms show "step lim st line = Inr st" by (simp add: step_def)
next
  fix pre p
  assume h: "line = pre @ '' b/'' @ p \<and> \<not> occurs '' b/'' p"
  then have "occurs '' b/'' line" unfolding occurs_iff by blast
  then have "2 \<le> length (py_split '' b/'' line)" by (intro py_split_present) simp_all
  moreover have "last (py_split '' b/'' line) = p" using h split_b_last by blast
  ultimately show "step lim st line =
      Inr (st\<lparr>current_file := Some p, files := dict_set (files st) p []\<rparr>)"
    using assms by (simp add: step_def Let_def)
qed

theorem file_marker_path_witness:
  "startswith ''diff --git'' ''diff --git a/q b/r b/s'' \<and> \<not> occurs '' b/'' ''s'' \<and>
   step 4300 init_state ''diff --git a/q b/r b/s'' =
     Inr (init_state\<lparr>current_file := Some ''s'', files := [(''s'', [])]\<rparr>) \<and>
   startswith ''diff --git'' ''diff --git q'' \<and> \<not> occurs '' b/'' ''diff --git q'' \<and>
   step 4300 init_state ''diff --git q'' = Inr init_state"
proof -
  have a: "startswith ''diff --git'' ''diff --git a/q b/r b/s''"
    and b: "startswith ''diff --git'' ''diff --git q''"
    and c: "\<not> occurs '' b/'' ''s''"
    and d: "\<not> occurs '' b/'' ''diff --git q''"
    by (simp_all add: startswith_def)
  have e: "''diff --git a/q b/r b/s'' = ''diff --git a/q b/r'' @ '' b/'' @ ''s''" by simp
  from file_marker_path[OF a, of 4300 init_state] e c
  have "step 4300 init_state ''diff --git a/q b/r b/s'' =
     Inr (init_state\<lparr>current_file := Some ''s'', files := dict_set (files init_state) ''s'' []\<rparr>)"
    by blast
  moreover from file_marker_path[OF b, of 4300 init_state] d
  have "step 4300 init_state ''diff --git q'' = Inr init_state" by blast
  ultimately show ?thesis using a b c d by (simp add: init_state_def)
qed

section \<open>The scan against the sections of the input\<close>

lemma st_outline_eq:
  "st_outline st =
     map (\<lambda>(p, ids). (p, map (\<lambda>i. (start_line (heap st ! i), header (heap st ! i))) ids))
       (files st)"
  by (auto simp: st_outline_def outline_def result_of_def)

lemma st_outline_keys: "map fst (st_outline st) = map fst (files st)"
  by (auto simp: st_outline_eq)

lemma map_dict_set:
  "map (\<lambda>(p, v). (p, g v)) (dict_set d k v) = dict_set (map (\<lambda>(p, v). (p, g v)) d) k (g v)"
  by (induction d k v rule: dict_set.induct) auto

lemma dict_append_absent: "k \<notin> fst ` set d \<Longrightarrow> dict_append d k xs = d"
  by (induction d) (auto simp: dict_append_def)

lemma dict_append_Nil: "dict_append d k [] = d"
  by (induction d) (auto simp: dict_append_def)

lemma dict_append_dict_set:
  "distinct (map fst d) \<Longrightarrow> dict_append (dict_set d k []) k xs = dict_set d k xs"
proof (induction d)
  case Nil
  then show ?case by (simp add: dict_append_def)
next
  case (Cons a d)
  obtain k' v' where a: "a = (k', v')" by (cases a)
  show ?case
  proof (cases "k' = k")
    case True
    with Cons.prems a have "k \<notin> fst ` set d" by auto
    then have "dict_append d k xs = d" by (rule dict_append_absent)
    with True a show ?thesis by (simp add: dict_append_def)
  next
    case False
    with Cons a show ?thesis by (simp add: dict_append_def)
  qed
qed

lemma dict_append_append: "dict_append (dict_append d k xs) k ys = dict_append d k (xs @ ys)"
  by (induction d) (auto simp: dict_append_def)

lemma dict_set_as_append:
  "distinct (map fst d) \<Longrightarrow> map_of d k = Some v \<Longrightarrow> dict_set d k (v @ xs) = dict_append d k xs"
proof (induction d)
  case Nil
  then show ?case by simp
next
  case (Cons a d)
  obtain k' v' where a: "a = (k', v')" by (cases a)
  show ?case
  proof (cases "k' = k")
    case True
    with Cons.prems a have "k \<notin> fst ` set d" by auto
    then have "dict_append d k xs = d" by (rule dict_append_absent)
    with True a Cons.prems show ?thesis by (simp add: dict_append_def)
  next
    case False
    with Cons a show ?thesis by (simp add: dict_append_def)
  qed
qed

lemma step_marker:
  "registers l \<Longrightarrow>
   step lim st l = Inr (st\<lparr>current_file := Some (marker_path l),
                           files := dict_set (files st) (marker_path l) []\<rparr>)"
  by (simp add: step_def registers_def marker_path_def Let_def)

lemma step_marker_inert:
  "startswith ''diff --git'' l \<Longrightarrow> \<not> registers l \<Longrightarrow> step lim st l = Inr st"
  by (simp add: step_def registers_def Let_def)

lemma not_both_markers: "startswith ''@@'' l \<Longrightarrow> \<not> startswith ''diff --git'' l"
  by (cases l) (auto simp: startswith_def)

lemma hunk_of_line_Some:
  "hunk_of_line lim l = Some x \<Longrightarrow>
   startswith ''@@'' l \<and> \<not> startswith ''diff --git'' l \<and> (\<exists>n. x = (n, l) \<and> hunk_new_start lim l = Inr n)"
  using not_both_markers[of l]
  by (auto simp: hunk_of_line_def split: if_splits sum.splits)

lemma step_hunk:
  assumes "hunk_of_line lim l = Some (n, l')" "current_file st = Some f" "f \<noteq> []"
    "map_of (files st) f = Some ids"
  shows "step lim st l =
     Inr (st\<lparr>heap := heap st @ [\<lparr>start_line = n, header = l, additions = [],
                                 deletions = [], context_lines = []\<rparr>],
             current_hunk := Some (length (heap st)),
             files := dict_set (files st) f (ids @ [length (heap st)])\<rparr>)"
  using hunk_of_line_Some[OF assms(1)] assms(2-)
  by (auto simp: step_def truthy_def)

lemma heap_upd_outline:
  assumes "\<And>x. start_line (g x) = start_line x" "\<And>x. header (g x) = header x"
  shows "st_outline (heap_upd h g st) = st_outline st"
proof -
  have "start_line ((heap st)[h := g (heap st ! h)] ! i) = start_line (heap st ! i)
      \<and> header ((heap st)[h := g (heap st ! h)] ! i) = header (heap st ! i)" for i
    using assms by (cases "i = h"; cases "h < length (heap st)") (simp_all add: list_update_beyond)
  then show ?thesis by (simp add: st_outline_eq heap_upd_def)
qed

lemma step_other:
  assumes "\<not> startswith ''diff --git'' l"
    "hunk_of_line lim l = None \<or> \<not> truthy (current_file st)"
  shows "\<exists>st1. step lim st l = Inr st1 \<and> files st1 = files st \<and>
     current_file st1 = current_file st \<and> st_outline st1 = st_outline st"
proof (cases "startswith ''@@'' l \<and> truthy (current_file st)")
  case True
  with assms have "\<exists>e. hunk_new_start lim l = Inl e"
    by (auto simp: hunk_of_line_def split: sum.splits)
  then obtain e where e: "hunk_new_start lim l = Inl e" by blast
  with hunk_new_start_errors[of lim l] have "e = ValueError \<or> e = IndexError" by (cases e) auto
  with True assms(1) e show ?thesis by (auto simp: step_def)
next
  case False
  with assms(1) show ?thesis
    by (auto simp: step_def heap_upd_outline split: option.splits)
      (auto simp: heap_upd_def)
qed

lemma split_sections_fst_snd:
  "registers l \<Longrightarrow> split_sections (l # ls) = ([], (marker_path l, fst (split_sections ls)) # snd (split_sections ls))"
  "\<not> registers l \<Longrightarrow> split_sections (l # ls) = (l # fst (split_sections ls), snd (split_sections ls))"
  by simp_all

lemma scan_outline:
  "wf_state st \<Longrightarrow>
   \<exists>st'. scan lim st ls = Inr st' \<and>
     st_outline st' =
       foldl (reg lim) (pending lim st (fst (split_sections ls))) (snd (split_sections ls))"
proof (induction ls arbitrary: st)
  case Nil
  then show ?case
    by (simp add: pending_def dict_append_Nil split: option.splits)
next
  case (Cons l ls)
  let ?pre = "fst (split_sections ls)" and ?secs = "snd (split_sections ls)"
  from step_total[OF Cons.prems, of lim l]
  obtain st1 where st1: "step lim st l = Inr st1" and wf1: "wf_state st1" by blast
  from Cons.IH[OF wf1] obtain st' where st': "scan lim st1 ls = Inr st'"
    and out: "st_outline st' = foldl (reg lim) (pending lim st1 ?pre) ?secs" by blast
  have scan: "scan lim st (l # ls) = Inr st'" using st1 st' by simp
  have dist: "distinct (map fst (st_outline st))"
    using Cons.prems by (simp add: st_outline_keys wf_state_def)
  consider (marker) "registers l"
    | (inert) "startswith ''diff --git'' l" "\<not> registers l"
    | (hunk) n f where "\<not> startswith ''diff --git'' l" "hunk_of_line lim l = Some (n, l)"
        "current_file st = Some f" "f \<noteq> []"
    | (other) "\<not> startswith ''diff --git'' l"
        "hunk_of_line lim l = None \<or> \<not> truthy (current_file st)"
    using hunk_of_line_Some[of lim l]
    by (cases "hunk_of_line lim l"; cases "current_file st")
      (auto simp: truthy_def registers_def)
  then have "pending lim st1 ?pre =
      (if registers l then reg lim (st_outline st) (marker_path l, ?pre)
       else pending lim st (l # ?pre))"
  proof cases
    case marker
    with st1 have eq: "st1 = st\<lparr>current_file := Some (marker_path l),
        files := dict_set (files st) (marker_path l) []\<rparr>"
      by (simp add: step_marker)
    have "st_outline st1 = dict_set (st_outline st) (marker_path l) []"
      unfolding eq st_outline_eq by (simp add: map_dict_set)
    moreover have "current_file st1 = Some (marker_path l)" by (simp add: eq)
    ultimately show ?thesis using marker dist
      by (simp add: pending_def reg_def section_hunks_def dict_append_dict_set)
  next
    case inert
    with st1 have "st1 = st" by (simp add: step_marker_inert)
    moreover have "hunk_of_line lim l = None"
      using inert(1) not_both_markers[of l] by (auto simp: hunk_of_line_def)
    ultimately show ?thesis using inert
      by (simp add: pending_def split: option.splits)
  next
    case hunk
    from Cons.prems hunk(3) obtain ids where ids: "map_of (files st) f = Some ids"
      using map_of_keys by (fastforce simp: wf_state_def)
    have eq: "st1 = st\<lparr>heap := heap st @ [\<lparr>start_line = n, header = l, additions = [],
                                 deletions = [], context_lines = []\<rparr>],
             current_hunk := Some (length (heap st)),
             files := dict_set (files st) f (ids @ [length (heap st)])\<rparr>"
      using step_hunk[OF hunk(2,3,4) ids] st1 by simp
    have old: "(p, js) \<in> set (files st) \<Longrightarrow> i \<in> set js \<Longrightarrow> i < length (heap st)" for p js i
      using Cons.prems by (auto simp: wf_state_def)
    have keep: "map (\<lambda>(p, ids). (p, map (\<lambda>i. (start_line ((heap st @ [x]) ! i), header ((heap st @ [x]) ! i))) ids)) (files st)
        = st_outline st" for x
      unfolding st_outline_eq using old by (auto simp: nth_append)
    have ids_mem: "(f, ids) \<in> set (files st)" using ids by (rule map_of_SomeD)
    have m: "map_of (st_outline st) f = Some (map (\<lambda>i. (start_line (heap st ! i), header (heap st ! i))) ids)"
      unfolding st_outline_eq using ids by (simp add: map_of_map)
    have "st_outline st1 = dict_set (st_outline st) f
        (map (\<lambda>i. (start_line (heap st ! i), header (heap st ! i))) ids @ [(n, l)])"
    proof -
      let ?x = "\<lparr>start_line = n, header = l, additions = [], deletions = [],
        context_lines = []\<rparr>"
      have idm: "map (\<lambda>i. (start_line ((heap st @ [?x]) ! i), header ((heap st @ [?x]) ! i))) ids
          = map (\<lambda>i. (start_line (heap st ! i), header (heap st ! i))) ids"
        by (rule map_cong) (auto simp: nth_append dest: old[OF ids_mem])
      show ?thesis
        unfolding eq by (subst st_outline_eq) (simp add: map_dict_set keep idm)
    qed
    also have "\<dots> = dict_append (st_outline st) f [(n, l)]"
      using dist m by (rule dict_set_as_append)
    finally have "st_outline st1 = dict_append (st_outline st) f [(n, l)]" .
    moreover have "current_file st1 = Some f" using hunk(3) by (simp add: eq)
    moreover have "\<not> registers l" using hunk(1) by (simp add: registers_def)
    ultimately show ?thesis using hunk
      by (simp add: pending_def dict_append_append)
  next
    case other
    from step_other[OF other] st1 have same: "files st1 = files st"
      "current_file st1 = current_file st" "st_outline st1 = st_outline st" by auto
    have "\<not> registers l" using other(1) by (simp add: registers_def)
    moreover have "pending lim st1 ?pre = pending lim st (l # ?pre)"
      using other(2) same
      by (auto simp: pending_def truthy_def split: option.splits)
    ultimately show ?thesis by simp
  qed
  then have "foldl (reg lim) (pending lim st1 ?pre) ?secs =
      foldl (reg lim) (pending lim st (fst (split_sections (l # ls)))) (snd (split_sections (l # ls)))"
    by (auto simp: pending_def dict_append_Nil split: option.splits)
  with scan out show ?case by simp
qed

section \<open>Order of files and hunks\<close>

lemma parse_lines_outline:
  "map_sum id outline (parse_lines lim ls) = Inr (foldl (reg lim) [] (snd (split_sections ls)))"
proof -
  from scan_outline[OF wf_init, of lim ls] obtain st' where
    "scan lim init_state ls = Inr st'"
    "st_outline st' = foldl (reg lim) (pending lim init_state (fst (split_sections ls)))
       (snd (split_sections ls))" by blast
  moreover have "pending lim init_state pre = []" for pre
    by (simp add: pending_def init_state_def st_outline_eq)
  ultimately show ?thesis by (simp add: parse_lines_def st_outline_def)
qed

lemma foldl_reg: "foldl (reg lim) d secs =
    foldl (\<lambda>d (k, v). dict_set d k v) d (map (\<lambda>(p, sec). (p, section_hunks lim p sec)) secs)"
  by (induction secs arbitrary: d) (auto simp: reg_def)

lemma parse_lines_dict_of:
  "map_sum id outline (parse_lines lim ls) = Inr (dict_of (section_table lim ls))"
  by (simp add: parse_lines_outline foldl_reg dict_of_def section_table_def)

lemma first_seen_snoc:
  "first_seen (xs @ [x]) = (if x \<in> set xs then first_seen xs else first_seen xs @ [x])"
  by (simp add: first_seen_def)

lemma first_seen_set: "set (first_seen xs) = set xs"
  by (simp add: first_seen_def)

lemma first_seen_distinct: "distinct (first_seen xs)"
  by (simp add: first_seen_def)

lemma last_value_snoc:
  "last_value (kvs @ [(k, v)]) k' = (if k' = k then v else last_value kvs k')"
  by (simp add: last_value_def)

lemma dict_set_map_keys:
  "distinct ks \<Longrightarrow>
   dict_set (map (\<lambda>k. (k, g k)) ks) k v =
     (if k \<in> set ks then map (\<lambda>k'. (k', (g(k := v)) k')) ks
      else map (\<lambda>k. (k, g k)) ks @ [(k, v)])"
  by (induction ks) auto

lemma dict_of_snoc: "dict_of (kvs @ [(k, v)]) = dict_set (dict_of kvs) k v"
  by (simp add: dict_of_def)

lemma dict_of_eq:
  "dict_of kvs = map (\<lambda>k. (k, last_value kvs k)) (first_seen (map fst kvs))"
proof (induction kvs rule: rev_induct)
  case Nil
  then show ?case by (simp add: dict_of_def first_seen_def)
next
  case (snoc a kvs)
  obtain k v where a: "a = (k, v)" by (cases a)
  have "dict_of (kvs @ [a]) = dict_set (map (\<lambda>k. (k, last_value kvs k)) (first_seen (map fst kvs))) k v"
    using snoc.IH by (simp add: a dict_of_snoc)
  also have "\<dots> = map (\<lambda>k'. (k', last_value (kvs @ [a]) k')) (first_seen (map fst (kvs @ [a])))"
    by (subst dict_set_map_keys)
      (auto simp: first_seen_distinct first_seen_set first_seen_snoc a last_value_snoc)
  finally show ?case .
qed

text \<open>
  C5, as stated: every file lists its hunks as they appear under it, and no file is merged
  or split. A path that two markers register is listed once, at its first position, with the
  hunks of its last section only: here the hunk \<open>@@ -1 +1 @@\<close> of \<open>x\<close> is not in the result.
\<close>

theorem repeated_path_counterexample:
  "map_sum id outline
     (parse_diff_to_files 4300
        ''diff --git a/x b/x\<newline>@@ -1 +1 @@\<newline>diff --git a/y b/y\<newline>diff --git a/x b/x\<newline>@@ -5 +5 @@'')
   = Inr [(''x'', [(5, ''@@ -5 +5 @@'')]), (''y'', [])]"
  by (simp add: parser_defs outline_def)

text \<open>
  C5, amended: for every input text, the result lists the paths that the file markers
  register in the order of their first appearance, and under each path, in the order of
  the input, one hunk for each hunk marker that parses in the last section of that path (the
  lines from the last marker of the path to the next marker that registers a path); a
  section whose path is the empty string has no hunks.
\<close>

theorem parse_order:
  "map_sum id outline (parse_diff_to_files lim diff_output) =
     Inr (expected_outline lim (py_split [CHR 0x0A] diff_output))"
  by (simp add: parse_diff_to_files_def parse_lines_dict_of dict_of_eq expected_outline_def)

lemma split_sections_drop_line:
  assumes "\<not> registers l" "hunk_of_line lim l = None"
  shows "List.map_filter (hunk_of_line lim) (fst (split_sections (pre @ l # post))) =
         List.map_filter (hunk_of_line lim) (fst (split_sections (pre @ post))) \<and>
         map (\<lambda>(p, sec). (p, section_hunks lim p sec)) (snd (split_sections (pre @ l # post))) =
         map (\<lambda>(p, sec). (p, section_hunks lim p sec)) (snd (split_sections (pre @ post)))"
proof (induction pre)
  case Nil
  then show ?case using assms by simp
next
  case (Cons a pre)
  show ?case
  proof (cases "registers a")
    case True
    with Cons show ?thesis by (simp add: section_hunks_def)
  next
    case False
    with Cons show ?thesis by (cases "hunk_of_line lim a") simp_all
  qed
qed

lemma section_table_drop_line:
  "\<not> registers l \<Longrightarrow> hunk_of_line lim l = None \<Longrightarrow>
   section_table lim (pre @ l # post) = section_table lim (pre @ post)"
  using split_sections_drop_line[of l lim pre post] by (simp add: section_table_def)

text \<open>
  C2, as stated: a hunk marker with a range token missing adds no hunk. It adds one: a
  missing range is read as \<open>+0\<close>, and the hunk starts at line 0.
\<close>

theorem missing_range_counterexample:
  "parse_diff_to_files 4300 ''diff --git a/x b/x\<newline>@@ -1,2 @@\<newline>+a''
   = Inr [(''x'', [\<lparr>start_line = 0, header = ''@@ -1,2 @@'', additions = [''a''],
                       deletions = [], context_lines = []\<rparr>])]"
  by (simp add: parser_defs)

text \<open>
  C2, amended: a hunk marker whose start of the new range is not an integer (the conversion
  of the header raises) adds no hunk, and the files and hunks of the result are those of the
  same input without that line: the hunks and files before and after it are parsed as they
  would be without it. A marker with a range token missing is not such a line.
\<close>

theorem malformed_hunk_header_skipped:
  assumes "py_split [CHR 0x0A] diff_output = pre @ l # post"
    and "startswith ''@@'' l" and "hunk_new_start lim l = Inl e"
  shows "map_sum id outline (parse_diff_to_files lim diff_output) =
         map_sum id outline (parse_lines lim (pre @ post))"
proof -
  have "\<not> registers l" using assms(2) not_both_markers by (simp add: registers_def)
  moreover have "hunk_of_line lim l = None" using assms(2,3) by (simp add: hunk_of_line_def)
  ultimately show ?thesis
    by (simp add: parse_diff_to_files_def assms(1) parse_lines_dict_of section_table_drop_line)
qed

theorem malformed_hunk_header_skipped_witness:
  "py_split [CHR 0x0A]
     ''diff --git a/x b/x\<newline>@@ -1 +x @@\<newline>+a\<newline>@@ -1,2 +3,4 @@\<newline>+b''
     = [''diff --git a/x b/x''] @ ''@@ -1 +x @@'' # [''+a'', ''@@ -1,2 +3,4 @@'', ''+b''] \<and>
   startswith ''@@'' ''@@ -1 +x @@'' \<and>
   hunk_new_start 4300 ''@@ -1 +x @@'' = Inl ValueError \<and>
   map_sum id outline
     (parse_diff_to_files 4300
        ''diff --git a/x b/x\<newline>@@ -1 +x @@\<newline>+a\<newline>@@ -1,2 +3,4 @@\<newline>+b'')
     = Inr [(''x'', [(3, ''@@ -1,2 +3,4 @@'')])]"
proof -
  have a: "py_split [CHR 0x0A]
     ''diff --git a/x b/x\<newline>@@ -1 +x @@\<newline>+a\<newline>@@ -1,2 +3,4 @@\<newline>+b''
     = [''diff --git a/x b/x''] @ ''@@ -1 +x @@'' # [''+a'', ''@@ -1,2 +3,4 @@'', ''+b'']"
    by (simp add: startswith_def)
  have b: "startswith ''@@'' ''@@ -1 +x @@''"
    by (simp add: startswith_def)
  have c: "hunk_new_start 4300 ''@@ -1 +x @@'' = Inl ValueError"
    by (simp add: parser_defs)
  have d: "map_sum id outline
      (parse_lines 4300 ([''diff --git a/x b/x''] @ [''+a'', ''@@ -1,2 +3,4 @@'', ''+b'']))
      = Inr [(''x'', [(3, ''@@ -1,2 +3,4 @@'')])]"
    by (simp add: parser_defs outline_def)
  from malformed_hunk_header_skipped[OF a b c] d a b c show ?thesis by simp
qed

theorem parse_order_witness:
  "map_sum id outline
     (parse_diff_to_files 4300
        ''diff --git a/x b/x\<newline>@@ -1 +1 @@\<newline>diff --git a/y b/y\<newline>@@ -2 +2 @@\<newline>@@ -9 +9 @@\<newline>diff --git a/x b/x\<newline>@@ -5 +5 @@'')
   = Inr [(''x'', [(5, ''@@ -5 +5 @@'')]),
          (''y'', [(2, ''@@ -2 +2 @@''), (9, ''@@ -9 +9 @@'')])]"
proof -
  have "expected_outline 4300 (py_split [CHR 0x0A]
      ''diff --git a/x b/x\<newline>@@ -1 +1 @@\<newline>diff --git a/y b/y\<newline>@@ -2 +2 @@\<newline>@@ -9 +9 @@\<newline>diff --git a/x b/x\<newline>@@ -5 +5 @@'')
    = [(''x'', [(5, ''@@ -5 +5 @@'')]),
       (''y'', [(2, ''@@ -2 +2 @@''), (9, ''@@ -9 +9 @@'')])]"
    by (simp add: expected_outline_def section_table_def registers_def marker_path_def
        section_hunks_def hunk_of_line_def first_seen_def last_value_def parser_defs
        List.map_filter_simps)
  with parse_order[of 4300
      "''diff --git a/x b/x\<newline>@@ -1 +1 @@\<newline>diff --git a/y b/y\<newline>@@ -2 +2 @@\<newline>@@ -9 +9 @@\<newline>diff --git a/x b/x\<newline>@@ -5 +5 @@''"]
  show ?thesis by simp
qed

section \<open>The body of a hunk\<close>




















section \<open>The repository locator\<close>

text \<open>
  C6, as stated: \<open>get_current_branch\<close> returns \<open>None\<close> when HEAD is detached. With HEAD
  detached, \<open>git branch --show-current\<close> prints nothing and exits with code 0, and the function
  returns the empty string.
\<close>

theorem detached_head_counterexample:
  "get_current_branch (\<lambda>args cwd. Completed '''' '''' 0) None = Some ''''"
  by (simp add: get_current_branch_def run_git_command_def py_strip_def)

text \<open>
  C6, amended: \<open>get_repo_root\<close> returns \<open>None\<close> exactly when its command does not complete
  with return code 0 (it exits with another code, times out or cannot be started), and the
  stripped output otherwise; \<open>get_current_branch\<close> likewise returns \<open>None\<close> exactly when its
  command does not complete with return code 0, and the stripped output otherwise, which is
  the branch name, or the empty string when the command prints nothing.
\<close>

theorem locator_results:
  "(get_repo_root env cwd = None \<longleftrightarrow>
      \<not> (\<exists>out err. env [''git'', ''rev-parse'', ''--show-toplevel''] cwd = Completed out err 0)) \<and>
   (\<forall>out err. env [''git'', ''rev-parse'', ''--show-toplevel''] cwd = Completed out err 0 \<longrightarrow>
      get_repo_root env cwd = Some (py_strip out)) \<and>
   (get_current_branch env cwd = None \<longleftrightarrow>
      \<not> (\<exists>out err. env [''git'', ''branch'', ''--show-current''] cwd = Completed out err 0)) \<and>
   (\<forall>out err. env [''git'', ''branch'', ''--show-current''] cwd = Completed out err 0 \<longrightarrow>
      get_current_branch env cwd = Some (py_strip out))"
  by (auto simp: get_repo_root_def get_current_branch_def run_git_command_def
      split: proc_outcome.splits)

theorem locator_results_witness:
  "get_repo_root (\<lambda>args cwd. if args = [''git'', ''rev-parse'', ''--show-toplevel'']
        then Completed ''/home/dev/repo\<newline>'' '''' 0 else Completed '' feature/x \<newline>'' '''' 0)
      (Some ''/home/dev/repo/src'') = Some ''/home/dev/repo'' \<and>
   get_current_branch (\<lambda>args cwd. if args = [''git'', ''rev-parse'', ''--show-toplevel'']
        then Completed ''/home/dev/repo\<newline>'' '''' 0 else Completed '' feature/x \<newline>'' '''' 0)
      (Some ''/home/dev/repo/src'') = Some ''feature/x'' \<and>
   get_repo_root (\<lambda>args cwd. Completed '''' ''fatal: not a git repository'' 128) (Some ''/tmp'')
     = None \<and>
   get_current_branch (\<lambda>args cwd. Timeout_Expired) (Some ''/tmp'') = None"
proof -
  let ?env = "\<lambda>args (cwd :: string option). if args = [''git'', ''rev-parse'', ''--show-toplevel'']
        then Completed ''/home/dev/repo\<newline>'' '''' 0 else Completed '' feature/x \<newline>'' '''' 0"
  have s1: "py_strip ''/home/dev/repo\<newline>'' = ''/home/dev/repo''"
    and s2: "py_strip '' feature/x \<newline>'' = ''feature/x''"
    by (simp_all add: py_strip_def py_isspace_def)
  from locator_results[of ?env "Some ''/home/dev/repo/src''"]
  have "get_repo_root ?env (Some ''/home/dev/repo/src'') = Some ''/home/dev/repo''"
    and "get_current_branch ?env (Some ''/home/dev/repo/src'') = Some ''feature/x''"
    by (simp_all add: s1 s2)
  moreover from locator_results[of "\<lambda>args cwd. Completed '''' ''fatal: not a git repository'' 128"
      "Some ''/tmp''"]
  have "get_repo_root (\<lambda>args cwd. Completed '''' ''fatal: not a git repository'' 128)
      (Some ''/tmp'') = None" by simp
  moreover from locator_results[of "\<lambda>args cwd. Timeout_Expired" "Some ''/tmp''"]
  have "get_current_branch (\<lambda>args cwd. Timeout_Expired) (Some ''/tmp'') = None" by simp
  ultimately show ?thesis by blast
qed

section \<open>Pagination under retries\<close>

lemma send_scripted:
  "send (scripted_net ok) ((u, a) # rest, log) u = (a, (rest, log))"
  by (simp add: scripted_net_def scripted_def)

lemma sleep_backoff_scripted:
  "sleep_backoff r j (scripted_net ok) (sc, log) =
     (sc, log @ filter (\<lambda>d. 0 < d) [backoff_time r j])"
  by (simp add: sleep_backoff_def scripted_net_def)

lemma retries_then_answer:
  assumes "''GET'' \<in> set (allowed_methods r)" "set fs \<subseteq> set (status_forcelist r)"
    "s \<notin> set (status_forcelist r)" "n + length fs \<le> total_retry r"
  shows "send_with_retries r (total_retry r - n) (scripted_net ok)
     (map (\<lambda>s. (u, Response s None)) fs @ (u, Response s b) # tail, log) u =
     (Inr (s, b),
      (tail, log @ naps (backoff_time r) n (length fs)))"
  using assms(2,4)
proof (induction fs arbitrary: n log)
  case Nil
  then show ?case using assms(3)
    by (cases "total_retry r - n") (simp_all add: send_scripted)
next
  case (Cons a fs)
  from Cons.prems(2) have k: "total_retry r - n = Suc (total_retry r - Suc n)"
    and j: "total_retry r - (total_retry r - Suc n) = Suc n" by auto
  from Cons.prems have "set fs \<subseteq> set (status_forcelist r)" "Suc n + length fs \<le> total_retry r"
    by auto
  from Cons.IH[OF this] Cons.prems(1) assms(1) show ?case
    by (simp add: k j send_scripted sleep_backoff_scripted)
qed

lemma retries_exhausted:
  assumes "''GET'' \<in> set (allowed_methods r)" "set fs \<subseteq> set (status_forcelist r)"
    "n + length fs = Suc (total_retry r)" "fs \<noteq> []"
  shows "send_with_retries r (total_retry r - n) (scripted_net ok)
     (map (\<lambda>s. (u, Response s None)) fs @ tail, log) u =
     (Inl Retry_Error,
      (tail, log @ naps (backoff_time r) n (length fs - 1)))"
  using assms(2,3,4)
proof (induction fs arbitrary: n log)
  case Nil
  then show ?case by simp
next
  case (Cons a fs)
  show ?case
  proof (cases fs)
    case Nil
    with Cons.prems have "total_retry r - n = 0" by simp
    with Nil Cons.prems(1) assms(1) show ?thesis by (simp add: send_scripted)
  next
    case (Cons b fs')
    with Cons.prems(2) have k: "total_retry r - n = Suc (total_retry r - Suc n)"
      and j: "total_retry r - (total_retry r - Suc n) = Suc n" by auto
    from Cons.prems Cons have "set fs \<subseteq> set (status_forcelist r)"
      "Suc n + length fs = Suc (total_retry r)" "fs \<noteq> []" by auto
    from Cons.IH[OF this] Cons.prems(1) assms(1) Cons show ?thesis
      by (simp add: k j send_scripted sleep_backoff_scripted)
  qed
qed

lemma session_facts:
  "''GET'' \<in> set (allowed_methods (max_retries (create_session email token)))"
  "set (status_forcelist (max_retries (create_session email token))) = {429, 500, 502, 503, 504}"
  "total_retry (max_retries (create_session email token)) = 3"
  by (simp_all add: create_session_def)

lemma session_slept:
  assumes "k \<le> 3"
  shows "naps (backoff_time (max_retries (create_session email token))) 0 k = slept k"
proof -
  from assms have "k = 0 \<or> k = Suc 0 \<or> k = Suc (Suc 0) \<or> k = Suc (Suc (Suc 0))" by auto
  then show ?thesis
    by (auto simp: backoff_time_def backoff_ms_def slept_def create_session_def)
qed

lemma session_get_page:
  assumes "has_http_scheme u" "set fs \<subseteq> {429, 500, 502, 503, 504}" "length fs \<le> 3"
    "ok u"
  shows "session_get (create_session email token) (scripted_net ok)
     (map (\<lambda>s. (u, Response s None)) fs @ (u, Response 200 b) # tail, log) u =
     (Inr (200, b), (tail, log @ slept (length fs)))"
proof -
  let ?r = "max_retries (create_session email token)"
  have b: "set fs \<subseteq> set (status_forcelist ?r)"
    using assms(2) by (simp only: session_facts)
  have d: "200 \<notin> set (status_forcelist ?r)" by (simp add: session_facts)
  have e: "0 + length fs \<le> total_retry ?r" using assms(3) by (simp add: session_facts)
  from retries_then_answer[OF session_facts(1) b d e,
      where ok = ok and u = u and b = b and tail = tail and log = log]
  have "send_with_retries ?r 3 (scripted_net ok)
     (map (\<lambda>s. (u, Response s None)) fs @ (u, Response 200 b) # tail, log) u =
     (Inr (200, b), (tail, log @ slept (length fs)))"
    by (simp add: session_facts(3) session_slept[OF assms(3)])
  then show ?thesis using assms(1,4)
    by (simp add: session_get_def session_facts(3) scripted_net_def)
qed

lemma session_get_exhausted:
  assumes "has_http_scheme u" "set fs \<subseteq> {429, 500, 502, 503, 504}" "4 \<le> length fs"
    "ok u"
  shows "session_get (create_session email token) (scripted_net ok)
     (map (\<lambda>s. (u, Response s None)) fs @ tail, log) u =
     (Inl Retry_Error, (map (\<lambda>s. (u, Response s None)) (drop 4 fs) @ tail, log @ slept 3))"
proof -
  let ?r = "max_retries (create_session email token)"
  have b: "set (take 4 fs) \<subseteq> set (status_forcelist ?r)"
    using assms(2) set_take_subset[of 4 fs] by (simp only: session_facts)
  have c: "0 + length (take 4 fs) = Suc (total_retry ?r)"
    using assms(3) by (simp add: session_facts)
  have d: "take 4 fs \<noteq> []" using assms(3) by auto
  have l: "length (take 4 fs) = 4" using assms(3) by simp
  from retries_exhausted[OF session_facts(1) b c d, where ok = ok and u = u
      and tail = "map (\<lambda>s. (u, Response s None)) (drop 4 fs) @ tail" and log = log]
  have "send_with_retries ?r 3 (scripted_net ok)
      (map (\<lambda>s. (u, Response s None)) (take 4 fs)
         @ (map (\<lambda>s. (u, Response s None)) (drop 4 fs) @ tail), log) u =
      (Inl Retry_Error, (map (\<lambda>s. (u, Response s None)) (drop 4 fs) @ tail, log @ slept 3))"
    using session_slept[of 3 email token] assms(3) by (simp add: session_facts(3) min_def)
  moreover have "map (\<lambda>s. (u, Response s None)) (take 4 fs)
         @ (map (\<lambda>s. (u, Response s None)) (drop 4 fs) @ tail)
       = map (\<lambda>s. (u, Response s None)) fs @ tail"
    by (metis append_assoc append_take_drop_id map_append)
  ultimately show ?thesis using assms(1,4)
    by (simp add: session_get_def session_facts(3) scripted_net_def)
qed

lemma fetch_pages_done: "fetch_pages fuel get w JNull acc = Some (Inr acc, w)"
  by (cases fuel) simp_all

lemma http_scheme_nonempty: "has_http_scheme u \<Longrightarrow> u \<noteq> []"
  by (auto simp: has_http_scheme_def startswith_def)

lemma fetch_pages_listing:
  assumes "\<forall>p\<in>set good. transient p \<and> ok (fst p) \<and> length (fst (snd p)) \<le> 3" "length good \<le> fuel"
  shows "fetch_pages fuel (session_get (create_session email token) (scripted_net ok))
      (listing_script (good @ rest) @ tail, log) (start_url (good @ rest)) acc =
    fetch_pages (fuel - length good) (session_get (create_session email token) (scripted_net ok))
      (listing_script rest @ tail, log @ page_sleeps good) (start_url rest)
      (acc @ page_items good)"
  using assms
proof (induction good arbitrary: fuel acc log)
  case Nil
  then show ?case by (simp add: page_items_def page_sleeps_def)
next
  case (Cons p good)
  obtain u fs vs where p: "p = (u, fs, vs)" by (cases p)
  from Cons.prems(2) obtain n where fuel: "fuel = Suc n" by (cases fuel) auto
  from Cons.prems(1) have tr: "transient p" "length fs \<le> 3" "ok u" by (auto simp: p)
  then have fs: "set fs \<subseteq> {429, 500, 502, 503, 504}" and sch: "has_http_scheme u"
    by (auto simp: transient_def p)
  from sch have u: "u \<noteq> []" by (rule http_scheme_nonempty)
  let ?b = "Some (JObj ((''values'', JArr vs)
          # (case good @ rest of [] \<Rightarrow> [] | (u', x) # y \<Rightarrow> [(''next'', JStr u')])))"
  have get: "session_get (create_session email token) (scripted_net ok)
      (listing_script (p # good @ rest) @ tail, log) u =
      (Inr (200, ?b), (listing_script (good @ rest) @ tail, log @ slept (length fs)))"
    using session_get_page[where ok = ok and u = u, OF sch fs tr(2,3),
        where email = email and token = token and b = ?b
          and tail = "listing_script (good @ rest) @ tail" and log = log]
    by (simp add: p)
  have nxt: "py_get (JObj ((''values'', JArr vs)
          # (case good @ rest of [] \<Rightarrow> [] | (u', x) # y \<Rightarrow> [(''next'', JStr u')]))) ''next'' JNull
      = Inr (start_url (good @ rest))"
    by (cases "good @ rest") auto
  have vals: "bind_sum (py_get (JObj ((''values'', JArr vs)
          # (case good @ rest of [] \<Rightarrow> [] | (u', x) # y \<Rightarrow> [(''next'', JStr u')]))) ''values'' (JArr []))
        py_iter = Inr vs"
    by (simp add: bind_sum_def)
  have step: "fetch_pages (Suc n) (session_get (create_session email token) (scripted_net ok))
      (listing_script (p # good @ rest) @ tail, log) (JStr u) acc =
    fetch_pages n (session_get (create_session email token) (scripted_net ok))
      (listing_script (good @ rest) @ tail, log @ slept (length fs)) (start_url (good @ rest))
      (acc @ vs)"
    using u by (simp add: get nxt vals del: py_get.simps)
  from Cons.prems
  have "\<forall>p\<in>set good. transient p \<and> ok (fst p) \<and> length (fst (snd p)) \<le> 3" "length good \<le> n"
    by (auto simp: fuel)
  from Cons.IH[OF this, of "log @ slept (length fs)" "acc @ vs"] step show ?case
    by (simp add: p fuel page_items_def page_sleeps_def)
qed

text \<open>
  C7, as stated: a request that fails with a status 5xx is sent again. The status 501 is not
  among those that the session retries: the error of the first answer surfaces at once, with
  no sleep, and the answer that would have succeeded is never requested.
\<close>

theorem not_every_5xx_counterexample:
  "fetch_paginated (scripted_net (\<lambda>url. True)) 1 (create_session ''me@example.com'' ''secret'')
     (listing_script [(''https://api.example.org/prs'', [501], [JNum 1])], [])
     ''https://api.example.org/prs''
   = Some (Inl (HTTP_Error 501),
           ([(''https://api.example.org/prs'',
              Response 200 (Some (JObj [(''values'', JArr [JNum 1])])))], []))"
  by (simp add: fetch_paginated_def session_get_def create_session_def scripted_def
      scripted_net_def has_http_scheme_def startswith_def ascii_lower_def py_isspace_def
      numeral_3_eq_3)

text \<open>
  C7, amended: take a listing whose pages have URLs with an http or https scheme that the
  library accepts, and of which every page fails at most three times, with statuses among
  429, 500, 502, 503 and 504, before it succeeds. With fuel for its pages, \<open>fetch_paginated\<close>
  returns the items of all pages in page order, and nothing is left of the script: it has
  sent one request for every failure and one for every success, each retry to the URL of the
  failed request. The backoff grows by doubling: the retry after the first failure of a page
  is immediate, the retry after its second failure follows a sleep of 2 seconds and the
  retry after its third a sleep of 4 seconds, and there is no other sleep. When instead a
  page fails four times in a row with such statuses, after pages that do not, the result is
  the error of the spent budget and no list of items; the page has been retried three times,
  with sleeps of 2 and 4 seconds, and its fifth answer is not requested.
\<close>

theorem fetch_all_with_retries:
  assumes "\<forall>p\<in>set good. transient p \<and> ok (fst p) \<and> length (fst (snd p)) \<le> 3"
  shows "(good \<noteq> [] \<and> length good \<le> fuel \<longrightarrow>
            fetch_paginated (scripted_net ok) fuel (create_session email token)
              (listing_script good, log) (fst (hd good))
            = Some (Inr (page_items good), ([], log @ page_sleeps good))) \<and>
         (\<forall>u fs vs rest. transient (u, fs, vs) \<and> ok u \<and> 4 \<le> length fs \<and> length good < fuel \<longrightarrow>
            fetch_paginated (scripted_net ok) fuel (create_session email token)
              (listing_script (good @ (u, fs, vs) # rest), log)
              (fst (hd (good @ [(u, fs, vs)])))
            = Some (Inl Retry_Error,
                    (drop 4 (listing_script ((u, fs, vs) # rest)),
                     log @ page_sleeps good @ slept 3)))"
proof (intro conjI allI impI)
  assume h: "good \<noteq> [] \<and> length good \<le> fuel"
  then have s: "JStr (fst (hd good)) = start_url good" by (cases good) auto
  from fetch_pages_listing[OF assms, where fuel = fuel and email = email and token = token
      and rest = "[]" and tail = "[]" and log = log and acc = "[]"] h
  show "fetch_paginated (scripted_net ok) fuel (create_session email token)
      (listing_script good, log) (fst (hd good))
      = Some (Inr (page_items good), ([], log @ page_sleeps good))"
    by (simp add: fetch_paginated_def s fetch_pages_done)
next
  fix u fs vs rest
  assume h: "transient (u, fs, vs) \<and> ok u \<and> 4 \<le> length fs \<and> length good < fuel"
  then obtain k where k: "fuel - length good = Suc k" by (cases "fuel - length good") auto
  from h have sch: "has_http_scheme u" and fs: "set fs \<subseteq> {429, 500, 502, 503, 504}"
    and ok: "ok u" and four: "4 \<le> length fs"
    by (auto simp: transient_def)
  from sch have u: "u \<noteq> []" by (rule http_scheme_nonempty)
  have s: "JStr (fst (hd (good @ [(u, fs, vs)]))) = start_url (good @ (u, fs, vs) # rest)"
    by (cases good) auto
  let ?ok = "(u, Response 200 (Some (JObj ((''values'', JArr vs)
          # (case rest of [] \<Rightarrow> [] | (u', x) # y \<Rightarrow> [(''next'', JStr u')])))))
     # listing_script rest"
  have "fetch_paginated (scripted_net ok) fuel (create_session email token)
      (listing_script (good @ (u, fs, vs) # rest), log) (fst (hd (good @ [(u, fs, vs)])))
    = fetch_pages (Suc k) (session_get (create_session email token) (scripted_net ok))
      (listing_script ((u, fs, vs) # rest), log @ page_sleeps good) (JStr u) (page_items good)"
    using fetch_pages_listing[OF assms, where fuel = fuel and email = email and token = token
        and rest = "(u, fs, vs) # rest" and tail = "[]" and log = log and acc = "[]"] h
    by (simp add: fetch_paginated_def s k)
  also have "\<dots> = Some (Inl Retry_Error,
      (map (\<lambda>s. (u, Response s None)) (drop 4 fs) @ ?ok, (log @ page_sleeps good) @ slept 3))"
    using u session_get_exhausted[where ok = ok and u = u, OF sch fs four ok,
        where email = email and token = token and tail = ?ok
          and log = "log @ page_sleeps good"]
    by simp
  also have "map (\<lambda>s. (u, Response s None)) (drop 4 fs) @ ?ok
      = drop 4 (listing_script ((u, fs, vs) # rest))"
    using h by (simp add: drop_map)
  finally show "fetch_paginated (scripted_net ok) fuel (create_session email token)
      (listing_script (good @ (u, fs, vs) # rest), log) (fst (hd (good @ [(u, fs, vs)])))
    = Some (Inl Retry_Error,
            (drop 4 (listing_script ((u, fs, vs) # rest)), log @ page_sleeps good @ slept 3))"
    by simp
qed

theorem fetch_all_with_retries_witness:
  "fetch_paginated (scripted_net (\<lambda>url. True)) 3 (create_session ''me@example.com'' ''secret'')
     (listing_script [(''https://api.example.org/prs'', [], [JNum 1, JNum 2]),
        (''https://api.example.org/prs?page=2'', [503, 503], [JNum 3]),
        (''https://api.example.org/prs?page=3'', [], [JNum 4])], [])
     ''https://api.example.org/prs''
   = Some (Inr [JNum 1, JNum 2, JNum 3, JNum 4], ([], [2000])) \<and>
   length (listing_script [(''https://api.example.org/prs'', [], [JNum 1, JNum 2]),
        (''https://api.example.org/prs?page=2'', [503, 503], [JNum 3]),
        (''https://api.example.org/prs?page=3'', [], [JNum 4])]) = 5 \<and>
   fetch_paginated (scripted_net (\<lambda>url. True)) 3 (create_session ''me@example.com'' ''secret'')
     (listing_script [(''https://api.example.org/prs'', [], [JNum 1]),
        (''https://api.example.org/prs?page=2'', [503, 503, 503, 503], [JNum 2])], [])
     ''https://api.example.org/prs''
   = Some (Inl Retry_Error,
           ([(''https://api.example.org/prs?page=2'',
              Response 200 (Some (JObj [(''values'', JArr [JNum 2])])))], [2000, 4000]))"
proof -
  have sch: "has_http_scheme ''https://api.example.org/prs''"
    "has_http_scheme ''https://api.example.org/prs?page=2''"
    "has_http_scheme ''https://api.example.org/prs?page=3''"
    by (simp_all add: has_http_scheme_def startswith_def ascii_lower_def py_isspace_def)
  have sl: "slept 0 = []" "slept (Suc (Suc 0)) = [2000]" "slept 3 = [2000, 4000]"
    "slept (Suc (Suc (Suc 0))) = [2000, 4000]"
    by (simp_all add: slept_def backoff_ms_def numeral_3_eq_3)
  from fetch_all_with_retries[where ok = "\<lambda>url. True" and fuel = 3
      and email = "''me@example.com''" and token = "''secret''" and log = "[]"
      and good = "[(''https://api.example.org/prs'', [], [JNum 1, JNum 2]),
        (''https://api.example.org/prs?page=2'', [503, 503], [JNum 3]),
        (''https://api.example.org/prs?page=3'', [], [JNum 4])]"]
  have "fetch_paginated (scripted_net (\<lambda>url. True)) 3
     (create_session ''me@example.com'' ''secret'')
     (listing_script [(''https://api.example.org/prs'', [], [JNum 1, JNum 2]),
        (''https://api.example.org/prs?page=2'', [503, 503], [JNum 3]),
        (''https://api.example.org/prs?page=3'', [], [JNum 4])], [])
     ''https://api.example.org/prs''
   = Some (Inr [JNum 1, JNum 2, JNum 3, JNum 4], ([], [2000]))"
    by (simp add: transient_def sch page_items_def page_sleeps_def sl)
  moreover
  from fetch_all_with_retries[where ok = "\<lambda>url. True" and fuel = 3
      and email = "''me@example.com''" and token = "''secret''" and log = "[]"
      and good = "[(''https://api.example.org/prs'', [], [JNum 1])]"]
  have "\<forall>u fs vs rest. transient (u, fs, vs) \<and> 4 \<le> length fs \<longrightarrow>
      fetch_paginated (scripted_net (\<lambda>url. True)) 3
        (create_session ''me@example.com'' ''secret'')
        (listing_script ((''https://api.example.org/prs'', [], [JNum 1]) # (u, fs, vs) # rest), [])
        ''https://api.example.org/prs''
      = Some (Inl Retry_Error,
              (drop 4 (listing_script ((u, fs, vs) # rest)), slept 3))"
    by (simp add: transient_def sch page_sleeps_def sl)
  then have "fetch_paginated (scripted_net (\<lambda>url. True)) 3
     (create_session ''me@example.com'' ''secret'')
     (listing_script [(''https://api.example.org/prs'', [], [JNum 1]),
        (''https://api.example.org/prs?page=2'', [503, 503, 503, 503], [JNum 2])], [])
     ''https://api.example.org/prs''
   = Some (Inl Retry_Error,
       (drop 4 (listing_script
          [(''https://api.example.org/prs?page=2'', [503, 503, 503, 503], [JNum 2])]),
        slept 3))"
    by (elim allE[of _ "''https://api.example.org/prs?page=2''"]
        allE[of _ "[503, 503, 503, 503]"] allE[of _ "[JNum 2]"] allE[of _ "[]"])
      (simp add: transient_def sch)
  ultimately show ?thesis by (simp add: sl)
qed

section \<open>The collected comments\<close>

lemma py_get_obj: "is_obj c \<Longrightarrow> py_get c k d = Inr (field_or c k d)"
  by (cases c) auto

lemma keeps_shaped:
  "comment_shaped c \<Longrightarrow> a \<noteq> [] \<Longrightarrow> keeps (Some a) c = Inr (author_of c = JStr a)"
  by (simp add: keeps_def comment_shaped_def py_get_obj bind_sum_def author_of_def)

lemma make_row_shaped:
  "comment_shaped c \<Longrightarrow>
   make_row (field_or pr ''id'' JNull) (field_or pr ''title'' JNull)
     (pr_url_text workspace repo_slug fmt (field_or pr ''id'' JNull)) c
   = Inr (comment_record fmt workspace repo_slug pr c)"
  by (simp add: make_row_def comment_shaped_def py_get_obj bind_sum_def comment_record_def)

lemma scan_comments_shaped:
  assumes "\<forall>c\<in>set cs. comment_shaped c" "a \<noteq> []"
  shows "scan_comments (Some a) (field_or pr ''id'' JNull) (field_or pr ''title'' JNull)
     (pr_url_text workspace repo_slug fmt (field_or pr ''id'' JNull)) cs acc
   = Inr (acc @ map (comment_record fmt workspace repo_slug pr)
                  (filter (\<lambda>c. author_of c = JStr a) cs))"
  using assms(1)
proof (induction cs arbitrary: acc)
  case Nil
  then show ?case by simp
next
  case (Cons c cs)
  then have c: "comment_shaped c" and cs: "\<forall>c\<in>set cs. comment_shaped c" by auto
  show ?case
    using Cons.IH[OF cs] keeps_shaped[OF c assms(2)]
      make_row_shaped[OF c, of pr workspace repo_slug fmt]
    by simp
qed

lemma pr_shaped_fields:
  assumes "pr_shaped pr"
  shows "bind_sum (py_item pr ''id'') (\<lambda>pid.
           bind_sum (py_item pr ''title'') (\<lambda>ptitle.
           bind_sum (py_slice_ok ptitle) (\<lambda>u. Inr (pid, ptitle))))
         = Inr (field_or pr ''id'' JNull, field_or pr ''title'' JNull)"
  using assms
  by (auto simp: pr_shaped_def bind_sum_def split: json.splits option.splits)

lemma scan_prs_shaped:
  assumes "a \<noteq> []"
    "\<forall>pr\<in>set prs. pr_shaped pr"
    "fetched (sleep net 100)
       (\<lambda>w pid. get_pr_comments net fuel s workspace repo_slug fmt pid w) w prs css w'"
    "\<forall>cs\<in>set css. \<forall>c\<in>set cs. comment_shaped c"
  shows "scan_prs net fuel s workspace repo_slug (Some a) fmt w prs acc
     = Some (Inr (acc @ matching_records fmt workspace repo_slug a prs css), w')"
  using assms(2-)
proof (induction prs arbitrary: w css acc)
  case Nil
  then show ?case by (simp add: matching_records_def)
next
  case (Cons pr prs)
  from Cons.prems(2) obtain cs rest w1 where css: "css = cs # rest"
    and get: "get_pr_comments net fuel s workspace repo_slug fmt (field_or pr ''id'' JNull) w
        = Some (Inr cs, w1)"
    and more: "fetched (sleep net 100)
        (\<lambda>w pid. get_pr_comments net fuel s workspace repo_slug fmt pid w)
        (sleep net 100 w1) prs rest w'"
  proof -
    assume t: "\<And>cs rest w1. css = cs # rest \<Longrightarrow>
        get_pr_comments net fuel s workspace repo_slug fmt (field_or pr ''id'' JNull) w
          = Some (Inr cs, w1) \<Longrightarrow>
        fetched (sleep net 100)
          (\<lambda>w pid. get_pr_comments net fuel s workspace repo_slug fmt pid w)
          (sleep net 100 w1) prs rest w' \<Longrightarrow> thesis"
    from Cons.prems(2) obtain cs rest where css: "css = cs # rest" by (cases css) auto
    show thesis
    proof (cases "get_pr_comments net fuel s workspace repo_slug fmt (field_or pr ''id'' JNull) w")
      case None
      with Cons.prems(2) css show ?thesis by simp
    next
      case (Some r)
      obtain x w1 where r: "r = (x, w1)" by (cases r)
      show ?thesis
      proof (cases x)
        case (Inl e)
        with Cons.prems(2) css Some r show ?thesis by simp
      next
        case (Inr cs')
        with Cons.prems(2) css Some r show ?thesis by (intro t[of cs rest w1]) auto
      qed
    qed
  qed
  from Cons.prems(1) have pr: "pr_shaped pr" and prs: "\<forall>pr\<in>set prs. pr_shaped pr" by auto
  from Cons.prems(3) css have cs: "\<forall>c\<in>set cs. comment_shaped c"
    and rest: "\<forall>cs\<in>set rest. \<forall>c\<in>set cs. comment_shaped c" by auto
  from Cons.IH[OF prs more rest] show ?case
    by (simp add: css pr_shaped_fields[OF pr] get scan_comments_shaped[OF cs assms(1)]
        matching_records_def)
qed

lemma https_scheme:
  "has_http_scheme (CHR ''h'' # CHR ''t'' # CHR ''t'' # CHR ''p'' # CHR ''s'' # CHR '':''
     # CHR ''/'' # CHR ''/'' # rest)"
  by (simp add: has_http_scheme_def startswith_def ascii_lower_def py_isspace_def)

text \<open>
  C8. With a filter that is set, for a listing of pull requests (records with an id and a
  title) and the listings of their comments (records) as the fetches return them, one after
  the other with the pause of the program after each pull request, the rows that
  \<open>export_comments_to_csv\<close> writes are exactly the records of the comments whose author
  identity is the filter's, the pull requests in the order of their listing and the comments
  of each in the order of its listing.
\<close>

theorem collect_comments_filtered:
  assumes "account_id \<noteq> []"
    and "get_all_prs net fuel s workspace repo_slug w = Some (Inr prs, w1)"
    and "\<forall>pr\<in>set prs. pr_shaped pr"
    and "fetched (sleep net 100)
           (\<lambda>w pid. get_pr_comments net fuel s workspace repo_slug fmt pid w) w1 prs css w2"
    and "\<forall>cs\<in>set css. \<forall>c\<in>set cs. comment_shaped c"
  shows "export_comments_to_csv net fuel s workspace repo_slug (Some account_id) fmt w
     = Some (Inr (matching_records fmt workspace repo_slug account_id prs css), w2)"
  using scan_prs_shaped[OF assms(1,3,4,5), of "[]"]
  by (simp add: export_comments_to_csv_def assms(2))

lemmas export_defs =
  get_all_prs_def get_pr_comments_def fetch_paginated_def session_get_def create_session_def
  scripted_def scripted_net_def sleep_backoff_def backoff_time_def https_scheme bind_sum_def
  numeral_3_eq_3

theorem collect_comments_filtered_witness:
  "export_comments_to_csv (scripted_net (\<lambda>url. True)) 1 (create_session ''me@example.com'' ''secret'')
     ''ws'' ''repo'' (Some ''alice'') ex_fmt (ex_world, [])
   = Some (Inr [comment_record ex_fmt ''ws'' ''repo'' (ex_prs ! 0) (ex_comment 2 ''alice''),
                comment_record ex_fmt ''ws'' ''repo'' (ex_prs ! 1) (ex_comment 4 ''alice'')],
           ([], [100, 100]))"
proof -
  let ?s = "create_session ''me@example.com'' ''secret''"
  let ?w1 = "listing_script
         [(''https://api.bitbucket.org/2.0/repositories/ws/repo/pullrequests/7/comments'',
           [], ex_comments ! 0)]
     @ listing_script
         [(''https://api.bitbucket.org/2.0/repositories/ws/repo/pullrequests/8/comments'',
           [503], ex_comments ! 1)]"
  have a: "''alice'' \<noteq> []" by simp
  have b: "get_all_prs (scripted_net (\<lambda>url. True)) 1 ?s ''ws'' ''repo'' (ex_world, [])
      = Some (Inr ex_prs, (?w1, []))"
    by (simp add: export_defs ex_world_def)
  have c: "\<forall>pr\<in>set ex_prs. pr_shaped pr"
    by (simp add: ex_prs_def pr_shaped_def)
  have d: "fetched (sleep (scripted_net (\<lambda>url. True)) 100)
      (\<lambda>w pid. get_pr_comments (scripted_net (\<lambda>url. True)) 1 ?s ''ws'' ''repo'' ex_fmt pid w)
      (?w1, []) ex_prs ex_comments ([], [100, 100])"
    by (simp add: export_defs ex_prs_def ex_comments_def ex_fmt_def)
  have e: "\<forall>cs\<in>set ex_comments. \<forall>c\<in>set cs. comment_shaped c"
    by (simp add: ex_comments_def ex_comment_def comment_shaped_def)
  from collect_comments_filtered[OF a b c d e] show ?thesis
    by (simp add: matching_records_def ex_prs_def ex_comments_def ex_comment_def author_of_def)
qed

end
